theory Spec2Isabelle
  imports Complex_Main
begin

section \<open>Tensors and the errors of the host\<close>

text \<open>
  The module \<^verbatim>\<open>dsntnn/__init__.py\<close> computes with PyTorch tensors. A tensor is modelled
  as its shape and its elements in row-major order (a contiguous tensor). Element
  arithmetic is idealised: an element is a real number and every operation on elements is
  exact. Everything Python or PyTorch raises is a value of \<open>error\<close>: a Python division by
  zero, a shape that does not fit, a dimension out of range, a \<^verbatim>\<open>reduce\<close> of an empty
  sequence.

  The idealisation stands for the rounding of floating-point numbers, not for their range.
  What the source does once an intermediate result leaves the range of floats is outside
  the model: \<^verbatim>\<open>(1 / stddev) ** 2\<close> raising \<^verbatim>\<open>OverflowError\<close> or \<^verbatim>\<open>1 / stddev\<close> being infinite
  for a \<^verbatim>\<open>stddev\<close> close to 0, an exponential that underflows to 0, a small term that a
  sum absorbs. The properties of \<^verbatim>\<open>make_gauss\<close> on valid input are therefore stated for a
  sigma within \<open>sigma_in_range\<close>, and they state no strict inequality that holds in exact
  arithmetic only.
\<close>

datatype error = ZeroDivisionError | RuntimeError | TypeError | IndexError

datatype tensor = Tensor (shape: "nat list") (data: "real list")

definition numel :: "tensor \<Rightarrow> nat" where
  "numel t = prod_list (shape t)"

definition wf_tensor :: "tensor \<Rightarrow> bool" where
  "wf_tensor t = (length (data t) = prod_list (shape t))"

text \<open>A dimension or an index counted from the end when negative, as Python and PyTorch do.\<close>

definition wrap_dim :: "nat \<Rightarrow> int \<Rightarrow> error + nat" where
  "wrap_dim n d =
     (if - int n \<le> d \<and> d < int n then Inr (nat (if d < 0 then d + int n else d))
      else Inl IndexError)"

text \<open>Running a list of fallible computations stops at the first error.\<close>

fun sequence_err :: "(error + 'a) list \<Rightarrow> error + 'a list" where
  "sequence_err [] = Inr []"
| "sequence_err (Inl e # ms) = Inl e"
| "sequence_err (Inr x # ms) = (case sequence_err ms of Inl e \<Rightarrow> Inl e | Inr xs \<Rightarrow> Inr (x # xs))"

fun fold_err :: "('a \<Rightarrow> 'b \<Rightarrow> error + 'b) \<Rightarrow> 'a list \<Rightarrow> 'b \<Rightarrow> error + 'b" where
  "fold_err f [] acc = Inr acc"
| "fold_err f (x # xs) acc = (case f x acc of Inl e \<Rightarrow> Inl e | Inr acc' \<Rightarrow> fold_err f xs acc')"

subsection \<open>The PyTorch operations the module calls\<close>

text \<open>
  \<^verbatim>\<open>torch.linspace(start, end, steps)\<close>: \<open>steps\<close> points from \<open>start\<close> to \<open>end\<close>, both
  included; one point is \<open>start\<close>; a negative number of points is refused.
\<close>

definition torch_linspace :: "real \<Rightarrow> real \<Rightarrow> int \<Rightarrow> error + tensor" where
  "torch_linspace start end steps =
     (if steps < 0 then Inl RuntimeError
      else if steps = 1 then Inr (Tensor [1] [start])
      else Inr (Tensor [nat steps]
                  (map (\<lambda>i. start + real i * ((end - start) / real_of_int (steps - 1)))
                       [0..<nat steps])))"

text \<open>
  \<^verbatim>\<open>t.view(*sizes)\<close>: the same elements under another shape. At most one size is \<open>-1\<close> and
  is inferred from the others, which must then divide the number of elements and not
  multiply to zero.
\<close>

definition view :: "int list \<Rightarrow> tensor \<Rightarrow> error + tensor" where
  "view sizes t =
     (if list_ex (\<lambda>s. s < - 1) sizes \<or> 1 < count_list sizes (- 1) then Inl RuntimeError
      else if count_list sizes (- 1) = 1 then
        (let known = nat (prod_list (filter (\<lambda>s. s \<noteq> - 1) sizes)) in
         if known = 0 \<or> numel t mod known \<noteq> 0 then Inl RuntimeError
         else Inr (Tensor (map (\<lambda>s. if s = - 1 then numel t div known else nat s) sizes)
                      (data t)))
      else if nat (prod_list sizes) = numel t then Inr (Tensor (map nat sizes) (data t))
      else Inl RuntimeError)"

text \<open>The \<open>n\<close> consecutive blocks of \<open>m\<close> elements of a list.\<close>

definition chunks :: "nat \<Rightarrow> nat \<Rightarrow> 'a list \<Rightarrow> 'a list list" where
  "chunks m n xs = map (\<lambda>i. take m (drop (i * m) xs)) [0..<n]"

text \<open>
  The sum along axis \<open>k\<close> of row-major elements of shape \<open>s\<close>, the axis kept with
  length 1: along the outermost axis the \<open>n\<close> blocks are added position by position;
  along an inner axis each block of the outermost axis is summed on its own.
\<close>

fun sum_axis :: "nat \<Rightarrow> nat list \<Rightarrow> real list \<Rightarrow> real list" where
  "sum_axis k [] xs = xs"
| "sum_axis 0 (n # s) xs =
     map (\<lambda>q. sum_list (map (\<lambda>j. xs ! (j * prod_list s + q)) [0..<n])) [0..<prod_list s]"
| "sum_axis (Suc k) (n # s) xs =
     concat (map (sum_axis k s) (chunks (prod_list s) n xs))"

text \<open>\<^verbatim>\<open>t.sum(dim, keepdim=...)\<close>.\<close>

definition sum_dim :: "int \<Rightarrow> bool \<Rightarrow> tensor \<Rightarrow> error + tensor" where
  "sum_dim d keepdim t =
     (case wrap_dim (length (shape t)) d of
        Inl e \<Rightarrow> Inl e
      | Inr k \<Rightarrow>
          Inr (Tensor (if keepdim then (shape t)[k := 1]
                       else take k (shape t) @ drop (Suc k) (shape t))
                 (sum_axis k (shape t) (data t))))"

text \<open>
  Broadcasting. Two shapes are aligned at their last axes; two aligned lengths must be
  equal or one of them 1. The shapes are given innermost axis first.
\<close>

fun broadcast_rev :: "nat list \<Rightarrow> nat list \<Rightarrow> error + nat list" where
  "broadcast_rev [] ys = Inr ys"
| "broadcast_rev xs [] = Inr xs"
| "broadcast_rev (x # xs) (y # ys) =
     (if x = y \<or> y = 1 \<or> x = 1 then
        (case broadcast_rev xs ys of
           Inl e \<Rightarrow> Inl e
         | Inr zs \<Rightarrow> Inr ((if x = 1 then y else x) # zs))
      else Inl RuntimeError)"

definition broadcast_shapes :: "nat list \<Rightarrow> nat list \<Rightarrow> error + nat list" where
  "broadcast_shapes a b =
     (case broadcast_rev (rev a) (rev b) of Inl e \<Rightarrow> Inl e | Inr zs \<Rightarrow> Inr (rev zs))"

text \<open>
  The elements of a tensor of shape \<open>s\<close> expanded to the shape \<open>r\<close> of the same number
  of axes: an axis of length 1 is repeated, any other axis is kept.
\<close>

fun expand_data :: "nat list \<Rightarrow> nat list \<Rightarrow> real list \<Rightarrow> real list" where
  "expand_data (m # s) (n # r) xs =
     (if m = n then concat (map (expand_data s r) (chunks (prod_list s) m xs))
      else concat (replicate n (expand_data s r xs)))"
| "expand_data s r xs = xs"

definition expand_to :: "nat list \<Rightarrow> tensor \<Rightarrow> real list" where
  "expand_to r t =
     expand_data (replicate (length r - length (shape t)) 1 @ shape t) r (data t)"

text \<open>An elementwise operation of two tensors, broadcast to their common shape.\<close>

definition broadcast_op :: "(real \<Rightarrow> real \<Rightarrow> real) \<Rightarrow> tensor \<Rightarrow> tensor \<Rightarrow> error + tensor" where
  "broadcast_op f a b =
     (case broadcast_shapes (shape a) (shape b) of
        Inl e \<Rightarrow> Inl e
      | Inr r \<Rightarrow> Inr (Tensor r (map2 f (expand_to r a) (expand_to r b))))"

definition tensor_map :: "(real \<Rightarrow> real) \<Rightarrow> tensor \<Rightarrow> tensor" where
  "tensor_map f t = Tensor (shape t) (map f (data t))"

text \<open>\<^verbatim>\<open>t.unsqueeze(d)\<close>: a new axis of length 1 at position \<open>d\<close>.\<close>

definition unsqueeze :: "int \<Rightarrow> tensor \<Rightarrow> error + tensor" where
  "unsqueeze d t =
     (case wrap_dim (Suc (length (shape t))) d of
        Inl e \<Rightarrow> Inl e
      | Inr k \<Rightarrow> Inr (Tensor (take k (shape t) @ 1 # drop k (shape t)) (data t)))"

text \<open>
  \<^verbatim>\<open>t.split(1, -1)\<close>: the slices of length 1 along the last axis. An empty last axis
  gives the tensor itself as the only slice.
\<close>

definition split_last :: "tensor \<Rightarrow> error + tensor list" where
  "split_last t =
     (if shape t = [] then Inl IndexError
      else if last (shape t) = 0 then Inr [t]
      else Inr (map (\<lambda>j. Tensor (butlast (shape t) @ [1])
                            (map (\<lambda>p. data t ! (p * last (shape t) + j))
                                 [0..<prod_list (butlast (shape t))]))
                    [0..<last (shape t)]))"

text \<open>\<^verbatim>\<open>torch.stack(ts, -1)\<close>: tensors of one shape joined along a new last axis.\<close>

definition stack_last :: "tensor list \<Rightarrow> error + tensor" where
  "stack_last ts =
     (case ts of
        [] \<Rightarrow> Inl RuntimeError
      | t # _ \<Rightarrow>
          if list_all (\<lambda>u. shape u = shape t) ts
          then Inr (Tensor (shape t @ [length ts])
                      (concat (map (\<lambda>p. map (\<lambda>u. data u ! p) ts) [0..<numel t])))
          else Inl RuntimeError)"

text \<open>
  \<^verbatim>\<open>torch.nn.functional.softmax(flat)\<close> of a tensor of two axes: the softmax of each
  row.
\<close>

definition softmax_row :: "real list \<Rightarrow> real list" where
  "softmax_row xs = map (\<lambda>x. exp x / sum_list (map exp xs)) xs"

definition softmax2 :: "tensor \<Rightarrow> error + tensor" where
  "softmax2 t =
     (case shape t of
        [r, c] \<Rightarrow> Inr (Tensor [r, c] (concat (map softmax_row (chunks c r (data t)))))
      | _ \<Rightarrow> Inl RuntimeError)"

section \<open>The module\<close>

subsection \<open>\<^verbatim>\<open>_normalized_linspace\<close>\<close>

text \<open>
  \<^verbatim>\<open>first = -(length - 1) / length\<close> divides two Python integers: length 0 raises
  \<^verbatim>\<open>ZeroDivisionError\<close> before \<^verbatim>\<open>torch.linspace\<close> is reached.
\<close>

definition normalized_linspace :: "int \<Rightarrow> error + tensor" where
  "normalized_linspace len =
     (if len = 0 then Inl ZeroDivisionError
      else let first = - real_of_int (len - 1) / real_of_int len;
               last_v = real_of_int (len - 1) / real_of_int len
           in torch_linspace first last_v len)"

subsection \<open>\<^verbatim>\<open>_coord_expectation\<close>, \<^verbatim>\<open>_coord_variance\<close>, \<^verbatim>\<open>dsnt\<close>\<close>

text \<open>The Python slices \<^verbatim>\<open>size[:-ndims]\<close> and \<^verbatim>\<open>size[-ndims:]\<close>.\<close>

definition first_dims :: "nat list \<Rightarrow> nat \<Rightarrow> nat list" where
  "first_dims s ndims = (if ndims = 0 then [] else take (length s - ndims) s)"

definition hm_dims :: "nat list \<Rightarrow> nat \<Rightarrow> nat list" where
  "hm_dims s ndims = (if ndims = 0 then s else drop (length s - ndims) s)"

text \<open>The loop \<^verbatim>\<open>for i in range(-ndims, 0): if i != dim: summed = summed.sum(i, keepdim=True)\<close>.\<close>

definition marginalize :: "int \<Rightarrow> nat \<Rightarrow> tensor \<Rightarrow> error + tensor" where
  "marginalize d ndims t =
     fold_err (\<lambda>i summed. if i \<noteq> d then sum_dim i True summed else Inr summed)
       (map (\<lambda>j. int j - int ndims) [0..<ndims]) t"

definition coord_expectation ::
  "tensor \<Rightarrow> int \<Rightarrow> nat \<Rightarrow> (tensor \<Rightarrow> error + tensor) option \<Rightarrow> error + tensor" where
  "coord_expectation heatmaps d ndims transform =
     (case wrap_dim (length (shape heatmaps)) d of Inl e \<Rightarrow> Inl e | Inr k \<Rightarrow>
      case normalized_linspace (int (shape heatmaps ! k)) of Inl e \<Rightarrow> Inl e | Inr coords \<Rightarrow>
      case (case transform of None \<Rightarrow> Inr coords | Some f \<Rightarrow> f coords) of
        Inl e \<Rightarrow> Inl e | Inr own_coords \<Rightarrow>
      case view (- 1 # map int (hm_dims (shape heatmaps) ndims)) heatmaps of
        Inl e \<Rightarrow> Inl e | Inr summed0 \<Rightarrow>
      case marginalize d ndims summed0 of Inl e \<Rightarrow> Inl e | Inr summed1 \<Rightarrow>
      case view [int (hd (shape summed1)), - 1] summed1 of Inl e \<Rightarrow> Inl e | Inr summed \<Rightarrow>
      if shape own_coords = [] then Inl IndexError else
      case view [- 1, int (last (shape own_coords))] own_coords of
        Inl e \<Rightarrow> Inl e | Inr coords2 \<Rightarrow>
      case broadcast_op (*) summed coords2 of Inl e \<Rightarrow> Inl e | Inr weighted \<Rightarrow>
      case sum_dim (- 1) False weighted of Inl e \<Rightarrow> Inl e | Inr expectations \<Rightarrow>
      if 0 < length (first_dims (shape heatmaps) ndims)
      then view (map int (first_dims (shape heatmaps) ndims)) expectations
      else Inr expectations)"

definition coord_variance :: "tensor \<Rightarrow> int \<Rightarrow> nat \<Rightarrow> error + tensor" where
  "coord_variance heatmaps d ndims =
     (case coord_expectation heatmaps d ndims None of
        Inl e \<Rightarrow> Inl e
      | Inr mu_x \<Rightarrow>
          coord_expectation heatmaps d ndims
            (Some (\<lambda>x. case broadcast_op (-) x mu_x of
                          Inl e \<Rightarrow> Inl e
                        | Inr d \<Rightarrow> Inr (tensor_map (\<lambda>v. v ^ 2) d))))"

definition dsnt :: "tensor \<Rightarrow> nat \<Rightarrow> error + tensor" where
  "dsnt heatmaps ndims =
     (case sequence_err (map (\<lambda>j. coord_expectation heatmaps (- 1 - int j) ndims None)
                           [0..<ndims]) of
        Inl e \<Rightarrow> Inl e
      | Inr mus \<Rightarrow> stack_last mus)"

subsection \<open>\<^verbatim>\<open>average_loss\<close>\<close>

text \<open>
  The sum of all elements is a number. Without a mask the denominator is the Python
  integer \<^verbatim>\<open>losses.numel()\<close> and \<^verbatim>\<open>max(denom, 1)\<close> applies; with a mask it is the
  sum of the mask and \<^verbatim>\<open>denom.clamp(1)\<close> applies.
\<close>

definition average_loss :: "tensor \<Rightarrow> tensor option \<Rightarrow> error + real" where
  "average_loss losses msk =
     (case msk of
        Some m \<Rightarrow>
          (case broadcast_op (*) losses m of
             Inl e \<Rightarrow> Inl e
           | Inr masked \<Rightarrow> Inr (sum_list (data masked) / max (sum_list (data m)) 1))
      | None \<Rightarrow> Inr (sum_list (data losses) / real (max (numel losses) 1)))"

subsection \<open>\<^verbatim>\<open>flat_softmax\<close>\<close>

text \<open>\<^verbatim>\<open>reduce(mul, xs)\<close> of Python integers: an empty sequence raises \<^verbatim>\<open>TypeError\<close>.\<close>

definition reduce_mul_nat :: "nat list \<Rightarrow> error + nat" where
  "reduce_mul_nat xs = (if xs = [] then Inl TypeError else Inr (prod_list xs))"

definition flat_softmax :: "tensor \<Rightarrow> nat \<Rightarrow> error + tensor" where
  "flat_softmax inp ndims =
     (let orig_size = shape inp in
      case reduce_mul_nat (hm_dims orig_size ndims) of Inl e \<Rightarrow> Inl e | Inr n \<Rightarrow>
      case view [- 1, int n] inp of Inl e \<Rightarrow> Inl e | Inr flat \<Rightarrow>
      case softmax2 flat of Inl e \<Rightarrow> Inl e | Inr flat' \<Rightarrow>
      view (map int orig_size) flat')"

text \<open>
  The same function with the storage of the tensors made explicit, to tell what it writes.
  A store is the list of the storages allocated so far; a tensor is the address of its
  storage and a shape. \<^verbatim>\<open>view\<close> returns a tensor on the storage of its argument;
  \<^verbatim>\<open>softmax\<close> allocates the storage of its result.
\<close>

datatype tref = TRef (addr: nat) (rshape: "nat list")

definition deref :: "real list list \<Rightarrow> tref \<Rightarrow> tensor" where
  "deref st r = Tensor (rshape r) (st ! addr r)"

definition view_ref :: "int list \<Rightarrow> real list list \<Rightarrow> tref \<Rightarrow> error + tref" where
  "view_ref sizes st r =
     (case view sizes (deref st r) of
        Inl e \<Rightarrow> Inl e
      | Inr t \<Rightarrow> Inr (TRef (addr r) (shape t)))"

definition softmax_ref :: "real list list \<Rightarrow> tref \<Rightarrow> error + real list list \<times> tref" where
  "softmax_ref st r =
     (case softmax2 (deref st r) of
        Inl e \<Rightarrow> Inl e
      | Inr t \<Rightarrow> Inr (st @ [data t], TRef (length st) (shape t)))"

definition flat_softmax_store ::
  "real list list \<Rightarrow> tref \<Rightarrow> nat \<Rightarrow> error + real list list \<times> tref" where
  "flat_softmax_store st inp ndims =
     (let orig_size = rshape inp in
      case reduce_mul_nat (hm_dims orig_size ndims) of Inl e \<Rightarrow> Inl e | Inr n \<Rightarrow>
      case view_ref [- 1, int n] st inp of Inl e \<Rightarrow> Inl e | Inr flat \<Rightarrow>
      case softmax_ref st flat of Inl e \<Rightarrow> Inl e | Inr (st', flat') \<Rightarrow>
      case view_ref (map int orig_size) st' flat' of
        Inl e \<Rightarrow> Inl e
      | Inr out \<Rightarrow> Inr (st', out))"

subsection \<open>\<^verbatim>\<open>make_gauss\<close>\<close>

text \<open>The division of two Python numbers raises on a zero divisor.\<close>

definition py_div :: "real \<Rightarrow> real \<Rightarrow> error + real" where
  "py_div a b = (if b = 0 then Inl ZeroDivisionError else Inr (a / b))"

text \<open>\<^verbatim>\<open>reduce(mul, ts)\<close> of tensors, from the left.\<close>

definition reduce_mul :: "tensor list \<Rightarrow> error + tensor" where
  "reduce_mul ts =
     (case ts of
        [] \<Rightarrow> Inl TypeError
      | t # us \<Rightarrow> fold_err (\<lambda>u acc. broadcast_op (*) acc u) us t)"

text \<open>
  \<^verbatim>\<open>ks = [-0.5 * (1 / stddev) ** 2 for stddev in [2 * sigma / s for s in reversed(size)]]\<close>,
  over the real numbers: a division by zero raises, and no result is too large or too
  small to be a number.
\<close>

definition gauss_ks :: "int list \<Rightarrow> real \<Rightarrow> error + real list" where
  "gauss_ks sz sigma =
     (case sequence_err (map (\<lambda>s. py_div (2 * sigma) (real_of_int s)) (rev sz)) of
        Inl e \<Rightarrow> Inl e
      | Inr stddevs \<Rightarrow>
          sequence_err (map (\<lambda>stddev. case py_div 1 stddev of
                                         Inl e \<Rightarrow> Inl e
                                       | Inr r \<Rightarrow> Inr (- 0.5 * r ^ 2)) stddevs))"

text \<open>\<^verbatim>\<open>(x - mean) ** 2\<close>.\<close>

definition sq_dist :: "tensor \<Rightarrow> tensor \<Rightarrow> error + tensor" where
  "sq_dist x mean =
     (case broadcast_op (-) x mean of
        Inl e \<Rightarrow> Inl e
      | Inr d \<Rightarrow> Inr (tensor_map (\<lambda>v. v ^ 2) d))"

definition make_gauss :: "tensor \<Rightarrow> int list \<Rightarrow> real \<Rightarrow> bool \<Rightarrow> error + tensor" where
  "make_gauss means sz sigma nrm =
     (let dim_range = map (\<lambda>j. - 1 - int j) [0..<length sz] in
      case sequence_err (map normalized_linspace (rev sz)) of
        Inl e \<Rightarrow> Inl e | Inr coords_list \<Rightarrow>
      case split_last means of Inl e \<Rightarrow> Inl e | Inr mean_list \<Rightarrow>
      case sequence_err (map (\<lambda>(x, mean). sq_dist x mean) (zip coords_list mean_list)) of
        Inl e \<Rightarrow> Inl e | Inr dists \<Rightarrow>
      case gauss_ks sz sigma of Inl e \<Rightarrow> Inl e | Inr ks \<Rightarrow>
      let exps = map (\<lambda>(k, dist). tensor_map exp (tensor_map (\<lambda>v. v * k) dist))
                     (zip ks dists) in
      case sequence_err
             (map (\<lambda>(d, dist). fold_err unsqueeze (filter (\<lambda>d'. d' \<noteq> d) dim_range) dist)
                  (zip dim_range exps)) of
        Inl e \<Rightarrow> Inl e | Inr factors \<Rightarrow>
      case reduce_mul factors of Inl e \<Rightarrow> Inl e | Inr gauss \<Rightarrow>
      if \<not> nrm then Inr gauss
      else
        case fold_err (\<lambda>d t. sum_dim d True t) dim_range gauss of
          Inl e \<Rightarrow> Inl e
        | Inr summed \<Rightarrow>
            broadcast_op (/) gauss (tensor_map (\<lambda>v. v + 1 / 10 ^ 24) summed))"

subsection \<open>\<^verbatim>\<open>_kl\<close>, \<^verbatim>\<open>_js\<close>, \<^verbatim>\<open>kl_reg_losses\<close>, \<^verbatim>\<open>js_reg_losses\<close>\<close>

definition kl :: "tensor \<Rightarrow> tensor \<Rightarrow> nat \<Rightarrow> real \<Rightarrow> error + tensor" where
  "kl p q ndims eps =
     (case broadcast_op (-) (tensor_map (\<lambda>v. ln (v + eps)) p)
                            (tensor_map (\<lambda>v. ln (v + eps)) q) of
        Inl e \<Rightarrow> Inl e | Inr logs \<Rightarrow>
      case broadcast_op (*) p logs of Inl e \<Rightarrow> Inl e | Inr unsummed_kl \<Rightarrow>
      fold_err (\<lambda>_ t. sum_dim (- 1) False t) [0..<ndims] unsummed_kl)"

definition js :: "tensor \<Rightarrow> tensor \<Rightarrow> nat \<Rightarrow> real \<Rightarrow> error + tensor" where
  "js p q ndims eps =
     (case broadcast_op (+) p q of Inl e \<Rightarrow> Inl e | Inr pq \<Rightarrow>
      let m = tensor_map (\<lambda>v. 0.5 * v) pq in
      case kl p m ndims eps of Inl e \<Rightarrow> Inl e | Inr kl_p \<Rightarrow>
      case kl q m ndims eps of Inl e \<Rightarrow> Inl e | Inr kl_q \<Rightarrow>
      broadcast_op (+) (tensor_map (\<lambda>v. 0.5 * v) kl_p) (tensor_map (\<lambda>v. 0.5 * v) kl_q))"

definition kl_reg_losses :: "tensor \<Rightarrow> tensor \<Rightarrow> real \<Rightarrow> error + tensor" where
  "kl_reg_losses heatmaps mu_t sigma_t =
     (if shape mu_t = [] then Inl IndexError
      else let ndims = last (shape mu_t) in
        case make_gauss mu_t (map int (hm_dims (shape heatmaps) ndims)) sigma_t True of
          Inl e \<Rightarrow> Inl e
        | Inr gauss \<Rightarrow> kl heatmaps gauss ndims (1 / 10 ^ 24))"

definition js_reg_losses :: "tensor \<Rightarrow> tensor \<Rightarrow> real \<Rightarrow> error + tensor" where
  "js_reg_losses heatmaps mu_t sigma_t =
     (if shape mu_t = [] then Inl IndexError
      else let ndims = last (shape mu_t) in
        case make_gauss mu_t (map int (hm_dims (shape heatmaps) ndims)) sigma_t True of
          Inl e \<Rightarrow> Inl e
        | Inr gauss \<Rightarrow> js heatmaps gauss ndims (1 / 10 ^ 24))"

section \<open>Notions for stating the properties\<close>

text \<open>The row-major position of the cell \<open>c\<close> (one index per axis) in a grid of shape \<open>s\<close>.\<close>

fun flat_index :: "nat list \<Rightarrow> nat list \<Rightarrow> nat" where
  "flat_index (n # s) (i # c) = i * prod_list s + flat_index s c"
| "flat_index s c = 0"

definition valid_cell :: "nat list \<Rightarrow> nat list \<Rightarrow> bool" where
  "valid_cell s c = list_all2 (<) c s"

text \<open>The elements of one sample with all mass on the cell \<open>c\<close>.\<close>

definition one_hot :: "nat list \<Rightarrow> nat list \<Rightarrow> real list" where
  "one_hot s c = (replicate (prod_list s) 0)[flat_index s c := 1]"

text \<open>Entry \<open>i\<close> of the axis \<^verbatim>\<open>_normalized_linspace\<close> returns for the length \<open>n\<close>.\<close>

definition axis_value :: "nat \<Rightarrow> nat \<Rightarrow> real" where
  "axis_value n i = (case normalized_linspace (int n) of Inr ax \<Rightarrow> data ax ! i | Inl e \<Rightarrow> 0)"

text \<open>
  What the loop of \<^verbatim>\<open>_coord_expectation\<close> does to one sample of shape \<open>s\<close>: the axes
  \<open>as\<close> are summed in turn, the axis \<open>p\<close> is skipped.
\<close>

fun marg_shape :: "nat list \<Rightarrow> nat \<Rightarrow> nat list \<Rightarrow> nat list" where
  "marg_shape [] p s = s"
| "marg_shape (a # as) p s = (if a \<noteq> p then marg_shape as p (s[a := 1]) else marg_shape as p s)"

fun marg_data :: "nat list \<Rightarrow> nat \<Rightarrow> nat list \<Rightarrow> real list \<Rightarrow> real list" where
  "marg_data [] p s xs = xs"
| "marg_data (a # as) p s xs =
     (if a \<noteq> p then marg_data as p (s[a := 1]) (sum_axis a s xs) else marg_data as p s xs)"

text \<open>
  The expectation along the axis \<open>p\<close> of one sample: its marginal along \<open>p\<close> weighted by
  the coordinates of that axis.
\<close>

definition sample_expectation :: "nat list \<Rightarrow> nat \<Rightarrow> real list \<Rightarrow> real" where
  "sample_expectation s p blk =
     sum_list (map2 (*) (marg_data [0..<length s] p s blk) (map (axis_value (s ! p)) [0..<s ! p]))"

text \<open>A tensor all of whose values lie between 0 and 1.\<close>

definition unit_values :: "tensor \<Rightarrow> bool" where
  "unit_values t = (\<forall>x\<in>set (data t). 0 \<le> x \<and> x \<le> 1)"

text \<open>
  The sigmas for which \<^verbatim>\<open>k = -0.5 * (1 / stddev) ** 2\<close> is a finite number other than 0
  in single and in double precision, on every axis: the magnitude of
  \<^verbatim>\<open>stddev = 2 * sigma / s\<close> is between 1e-18 and 1e18. For a \<^verbatim>\<open>stddev\<close> closer to 0 the
  source raises \<^verbatim>\<open>OverflowError\<close> or computes with an infinite \<^verbatim>\<open>k\<close>; for a larger one
  \<^verbatim>\<open>k\<close> underflows.
\<close>

definition sigma_in_range :: "int list \<Rightarrow> real \<Rightarrow> bool" where
  "sigma_in_range sz sigma =
     (\<forall>s\<in>set sz. 1 / 10 ^ 18 \<le> \<bar>2 * sigma / real_of_int s\<bar> \<and>
                  \<bar>2 * sigma / real_of_int s\<bar> \<le> 10 ^ 18)"

text \<open>
  The cell of a tensor of shape \<open>s\<close> that broadcasting reads for the cell \<open>c\<close> of the
  result: index 0 along an axis of length 1, the index of \<open>c\<close> along any other axis.
\<close>

fun clip_index :: "nat list \<Rightarrow> nat list \<Rightarrow> nat list" where
  "clip_index (m # s) (i # c) = (if m = 1 then 0 else i) # clip_index s c"
| "clip_index s c = []"

text \<open>
  A well-formed tensor of shape \<open>batch @ r\<close>, where \<open>r\<close> broadcasts to \<open>s\<close>, whose sample
  \<open>p\<close> holds 1 at the cell read for the cell \<open>c\<close> of a grid of shape \<open>s\<close>.
\<close>

definition reads_one :: "nat list \<Rightarrow> nat list \<Rightarrow> nat \<Rightarrow> nat list \<Rightarrow> tensor \<Rightarrow> bool" where
  "reads_one batch s p c t =
     (wf_tensor t \<and>
      (\<exists>r. shape t = batch @ r \<and> list_all2 (\<lambda>m n. m = n \<or> m = 1) r s \<and>
           chunks (prod_list r) (prod_list batch) (data t) ! p ! flat_index r (clip_index r c) = 1))"

section \<open>Properties\<close>

subsection \<open>The normalized axis\<close>

lemma normalized_linspace_closed:
  assumes "1 \<le> len"
  shows "normalized_linspace len =
     Inr (Tensor [nat len]
            (map (\<lambda>i. - real_of_int (len - 1) / real_of_int len + real i * 2 / real_of_int len)
                 [0..<nat len]))"
proof (cases "len = 1")
  case True
  then show ?thesis
    by (simp add: normalized_linspace_def torch_linspace_def)
next
  case False
  with assms have gt: "1 < len" by simp
  then have step: "(real_of_int (len - 1) / real_of_int len
        - (- real_of_int (len - 1) / real_of_int len)) / real_of_int (len - 1)
      = 2 / real_of_int len"
    by (simp add: field_simps)
  from gt show ?thesis
    unfolding normalized_linspace_def torch_linspace_def Let_def step
    by (simp add: field_simps)
qed




subsection \<open>The sign of sigma\<close>

lemma sequence_err_map_uminus:
  "sequence_err (map (\<lambda>s. py_div (2 * - sigma) (f s)) xs) =
   map_sum id (map uminus) (sequence_err (map (\<lambda>s. py_div (2 * sigma) (f s)) xs))"
  by (induction xs) (auto simp: py_div_def split: sum.splits)

lemma ks_of_neg:
  "sequence_err (map (\<lambda>stddev. case py_div 1 stddev of Inl e \<Rightarrow> Inl e
                                 | Inr r \<Rightarrow> Inr (- 0.5 * r ^ 2)) (map uminus xs)) =
   sequence_err (map (\<lambda>stddev. case py_div 1 stddev of Inl e \<Rightarrow> Inl e
                                 | Inr r \<Rightarrow> Inr (- 0.5 * r ^ 2)) xs)"
proof (induction xs)
  case Nil
  then show ?case by simp
next
  case (Cons x xs)
  have "(1 / - x)\<^sup>2 = (1 / x)\<^sup>2" by (simp add: power2_eq_square)
  with Cons show ?case
    by (cases "x = 0") (simp_all add: py_div_def del: minus_divide_right split: sum.splits)
qed

lemma gauss_ks_neg: "gauss_ks sz (- sigma) = gauss_ks sz sigma"
proof (cases "sequence_err (map (\<lambda>s. py_div (2 * sigma) (real_of_int s)) (rev sz))")
  case (Inl e)
  then show ?thesis
    unfolding gauss_ks_def sequence_err_map_uminus by simp
next
  case (Inr b)
  then show ?thesis
    unfolding gauss_ks_def sequence_err_map_uminus using ks_of_neg [of b]
    by (simp del: map_map)
qed

text \<open>
  C10: \<^verbatim>\<open>make_gauss\<close> gives the same result, value or error, for \<open>-sigma\<close> as for
  \<open>sigma\<close>: sigma enters only through the square of \<open>1 / stddev\<close>.
\<close>

theorem make_gauss_neg_sigma:
  "make_gauss means sz (- sigma) nrm = make_gauss means sz sigma nrm"
  unfolding make_gauss_def gauss_ks_neg ..


lemmas eval_defs = make_gauss_def normalized_linspace_def torch_linspace_def split_last_def
  sq_dist_def broadcast_op_def broadcast_shapes_def expand_to_def gauss_ks_def py_div_def
  tensor_map_def reduce_mul_def upt_rec chunks_def sum_dim_def wrap_dim_def unsqueeze_def

theorem make_gauss_neg_sigma_witness:
  "make_gauss (Tensor [1] [0]) [2] (- 1) False =
     Inr (Tensor [2] [exp (- (1 / 8)), exp (- (1 / 8))])"
  using make_gauss_neg_sigma [of "Tensor [1] [0]" "[2]" 1 False]
  by (simp add: eval_defs power2_eq_square numeral_2_eq_2)

lemma sequence_err_py_div_error:
  "sequence_err (map (\<lambda>s. py_div a (f s)) xs) = Inl e \<Longrightarrow> e = ZeroDivisionError"
  by (induction xs) (auto simp: py_div_def split: sum.splits if_splits)

lemma gauss_ks_zero:
  assumes "sz \<noteq> []"
  shows "gauss_ks sz 0 = Inl ZeroDivisionError"
proof (cases "sequence_err (map (\<lambda>s. py_div (2 * 0) (real_of_int s)) (rev sz))")
  case (Inl e)
  then show ?thesis
    using sequence_err_py_div_error [OF Inl] by (simp add: gauss_ks_def)
next
  case (Inr b)
  from assms obtain s ss where r: "rev sz = s # ss" by (cases "rev sz") auto
  from Inr r obtain bs where b: "b = 0 # bs"
    by (auto simp: py_div_def split: sum.splits if_splits)
  show ?thesis
    using Inr by (simp add: gauss_ks_def b py_div_def)
qed

subsection \<open>Blocks\<close>

lemma chunks_0 [simp]: "chunks m 0 xs = []"
  by (simp add: chunks_def)

lemma chunks_Suc: "chunks m (Suc n) xs = take m xs # chunks m n (drop m xs)"
proof -
  have "[0..<Suc n] = 0 # map Suc [0..<n]"
    by (simp add: upt_conv_Cons map_Suc_upt del: upt_Suc)
  then show ?thesis
    by (simp add: chunks_def comp_def add.commute del: upt_Suc)
qed

lemma length_chunks [simp]: "length (chunks m n xs) = n"
  by (simp add: chunks_def)

lemma concat_chunks: "length xs = n * m \<Longrightarrow> concat (chunks m n xs) = xs"
  by (induction n arbitrary: xs) (simp_all add: chunks_Suc)

lemma chunks_lengths: "length xs = n * m \<Longrightarrow> c \<in> set (chunks m n xs) \<Longrightarrow> length c = m"
proof (induction n arbitrary: xs)
  case 0
  then show ?case by simp
next
  case (Suc n)
  from Suc.prems(1) have l: "length (drop m xs) = n * m" by simp
  from Suc.prems(2) have "c = take m xs \<or> c \<in> set (chunks m n (drop m xs))"
    by (simp add: chunks_Suc)
  then show ?case
  proof
    assume "c = take m xs"
    with Suc.prems(1) show ?thesis by simp
  next
    assume "c \<in> set (chunks m n (drop m xs))"
    with Suc.IH [OF l] show ?thesis .
  qed
qed

lemma chunks_append: "length xs = m \<Longrightarrow> chunks m (Suc n) (xs @ ys) = xs # chunks m n ys"
  by (simp add: chunks_Suc)

lemma chunks_concat:
  "(\<And>c. c \<in> set cs \<Longrightarrow> length c = m) \<Longrightarrow> chunks m (length cs) (concat cs) = cs"
  by (induction cs) (simp_all add: chunks_Suc)

subsection \<open>Broadcasting of equal shapes\<close>

lemma broadcast_rev_same: "broadcast_rev xs xs = Inr xs"
  by (induction xs) auto

lemma broadcast_shapes_same: "broadcast_shapes s s = Inr s"
  by (simp add: broadcast_shapes_def broadcast_rev_same)

lemma expand_data_same: "length xs = prod_list s \<Longrightarrow> expand_data s s xs = xs"
proof (induction s arbitrary: xs)
  case Nil
  then show ?case by simp
next
  case (Cons n s)
  from Cons.prems have l: "length xs = n * prod_list s" by simp
  have "expand_data s s c = c" if "c \<in> set (chunks (prod_list s) n xs)" for c
    using chunks_lengths [OF l that] by (rule Cons.IH)
  then have "map (expand_data s s) (chunks (prod_list s) n xs) = chunks (prod_list s) n xs"
    by (rule map_idI)
  then show ?case using concat_chunks [OF l] by simp
qed

lemma expand_to_same: "wf_tensor t \<Longrightarrow> expand_to (shape t) t = data t"
  by (simp add: expand_to_def wf_tensor_def expand_data_same)

lemma broadcast_op_same:
  "wf_tensor a \<Longrightarrow> wf_tensor b \<Longrightarrow> shape b = shape a \<Longrightarrow>
   broadcast_op f a b = Inr (Tensor (shape a) (map2 f (data a) (data b)))"
  using expand_to_same [of a] expand_to_same [of b]
  by (simp add: broadcast_op_def broadcast_shapes_same)

subsection \<open>The average of the losses\<close>

lemma map2_mult_ones: "length xs = n \<Longrightarrow> map2 (*) xs (replicate n (1::real)) = xs"
  by (induction xs arbitrary: n) auto

lemma map2_mult_zeros: "length xs = n \<Longrightarrow> map2 (*) xs (replicate n (0::real)) = replicate n 0"
  by (induction xs arbitrary: n) auto

lemma sum_list_replicate_real: "sum_list (replicate n (c::real)) = real n * c"
  by (induction n) (simp_all add: algebra_simps)

text \<open>
  C7: with a mask, \<^verbatim>\<open>average_loss\<close> is the sum of the masked losses over
  \<open>max (sum of the mask) 1\<close>; without one it is the sum of the losses over their count.
  So a mask of ones of the shape of the losses gives the unmasked mean, and a mask of
  zeros gives 0.
\<close>

theorem average_loss_spec:
  "(broadcast_op (*) losses m = Inr masked \<longrightarrow>
      average_loss losses (Some m) = Inr (sum_list (data masked) / max (sum_list (data m)) 1)) \<and>
   (0 < numel losses \<longrightarrow>
      average_loss losses None = Inr (sum_list (data losses) / real (numel losses))) \<and>
   (wf_tensor losses \<longrightarrow>
      average_loss losses (Some (Tensor (shape losses) (replicate (numel losses) 1))) =
        average_loss losses None) \<and>
   (wf_tensor losses \<longrightarrow>
      average_loss losses (Some (Tensor (shape losses) (replicate (numel losses) 0))) = Inr 0)"
proof (intro conjI impI)
  assume "broadcast_op (*) losses m = Inr masked"
  then show "average_loss losses (Some m) = Inr (sum_list (data masked) / max (sum_list (data m)) 1)"
    by (simp add: average_loss_def)
next
  assume "0 < numel losses"
  then have "max (numel losses) 1 = numel losses" by simp
  then show "average_loss losses None = Inr (sum_list (data losses) / real (numel losses))"
    by (simp add: average_loss_def)
next
  assume wf: "wf_tensor losses"
  let ?m = "Tensor (shape losses) (replicate (numel losses) 1)"
  have "wf_tensor ?m" by (simp add: wf_tensor_def numel_def)
  then have "broadcast_op (*) losses ?m = Inr (Tensor (shape losses) (data losses))"
    using wf by (simp add: broadcast_op_same map2_mult_ones wf_tensor_def numel_def)
  moreover have "max (real (numel losses)) 1 = real (max (numel losses) 1)" by simp
  ultimately show "average_loss losses (Some ?m) = average_loss losses None"
    by (simp add: average_loss_def sum_list_replicate_real)
next
  assume wf: "wf_tensor losses"
  let ?m = "Tensor (shape losses) (replicate (numel losses) 0)"
  have "wf_tensor ?m" by (simp add: wf_tensor_def numel_def)
  then have "broadcast_op (*) losses ?m = Inr (Tensor (shape losses) (replicate (numel losses) 0))"
    using wf by (simp add: broadcast_op_same map2_mult_zeros wf_tensor_def numel_def)
  then show "average_loss losses (Some ?m) = Inr 0"
    by (simp add: average_loss_def sum_list_replicate_real)
qed

theorem average_loss_spec_witness:
  "broadcast_op (*) (Tensor [2, 2] [1, 2, 3, 4]) (Tensor [2, 2] [1, 0, 1, 0]) =
     Inr (Tensor [2, 2] [1, 0, 3, 0]) \<and>
   average_loss (Tensor [2, 2] [1, 2, 3, 4]) (Some (Tensor [2, 2] [1, 0, 1, 0])) = Inr 2 \<and>
   0 < numel (Tensor [2, 2] [1, 2, 3, 4]) \<and>
   average_loss (Tensor [2, 2] [1, 2, 3, 4]) None = Inr (5 / 2) \<and>
   wf_tensor (Tensor [2, 2] [1, 2, 3, 4]) \<and>
   average_loss (Tensor [2, 2] [1, 2, 3, 4]) (Some (Tensor [2, 2] [1, 1, 1, 1])) = Inr (5 / 2) \<and>
   average_loss (Tensor [2, 2] [1, 2, 3, 4]) (Some (Tensor [2, 2] [0, 0, 0, 0])) = Inr 0"
proof -
  have b: "broadcast_op (*) (Tensor [2, 2] [1, 2, 3, 4]) (Tensor [2, 2] [1, 0, 1, 0]) =
     Inr (Tensor [2, 2] [1, 0, 3, 0])"
    by (simp add: broadcast_op_same wf_tensor_def)
  have n: "0 < numel (Tensor [2, 2] [1, 2, 3, 4])" by (simp add: numel_def)
  have w: "wf_tensor (Tensor [2, 2] [1, 2, 3, 4])" by (simp add: wf_tensor_def)
  have r: "replicate 4 x = [x, x, x, x]" for x :: real
    by (simp add: eval_nat_numeral)
  show ?thesis
    using average_loss_spec [of "Tensor [2, 2] [1, 2, 3, 4]" "Tensor [2, 2] [1, 0, 1, 0]"
        "Tensor [2, 2] [1, 0, 3, 0]"] b n w
    by (simp add: r numel_def)
qed

subsection \<open>Invalid lengths and sigmas\<close>

lemma normalized_linspace_invalid:
  "len < 1 \<Longrightarrow>
   normalized_linspace len = Inl (if len = 0 then ZeroDivisionError else RuntimeError)"
  by (simp add: normalized_linspace_def torch_linspace_def Let_def)

lemma make_gauss_sigma_zero: "\<exists>e. make_gauss means sz 0 nrm = Inl e"
proof (cases "sz = []")
  case True
  then show ?thesis
    by (simp add: make_gauss_def gauss_ks_def reduce_mul_def split: sum.splits)
next
  case False
  then show ?thesis
    using gauss_ks_zero [of sz] by (simp add: make_gauss_def Let_def split: sum.splits)
qed

lemma make_gauss_sigma_zero_error:
  assumes "sz \<noteq> []"
    and "sequence_err (map normalized_linspace (rev sz)) = Inr coords_list"
    and "split_last means = Inr mean_list"
    and "sequence_err (map (\<lambda>(x, mean). sq_dist x mean) (zip coords_list mean_list)) = Inr dists"
  shows "make_gauss means sz 0 nrm = Inl ZeroDivisionError"
  using assms gauss_ks_zero [of sz] by (simp add: make_gauss_def Let_def)

lemma gauss_ks_abs: "gauss_ks sz \<bar>sigma\<bar> = gauss_ks sz sigma"
  by (cases "sigma < 0") (simp_all add: abs_if gauss_ks_neg)

lemma make_gauss_abs: "make_gauss means sz \<bar>sigma\<bar> nrm = make_gauss means sz sigma nrm"
  unfolding make_gauss_def gauss_ks_abs ..

text \<open>
  C2, amended: the module validates neither the length nor sigma, and these invalid
  values are reported as errors or are no different from valid ones. A length of 0 raises
  \<^verbatim>\<open>ZeroDivisionError\<close> in the division of \<^verbatim>\<open>_normalized_linspace\<close>, a negative length is
  refused by \<^verbatim>\<open>torch.linspace\<close>; a sigma of 0 makes \<^verbatim>\<open>make_gauss\<close>, \<^verbatim>\<open>kl_reg_losses\<close> and
  \<^verbatim>\<open>js_reg_losses\<close> raise (\<^verbatim>\<open>ZeroDivisionError\<close> when the steps before the division
  succeed); a negative sigma gives what its absolute value gives, an error or an array
  alike.
\<close>

theorem invalid_parameters:
  "(len < 1 \<longrightarrow>
      normalized_linspace len = Inl (if len = 0 then ZeroDivisionError else RuntimeError)) \<and>
   (\<exists>e. make_gauss means sz 0 nrm = Inl e) \<and>
   (sz \<noteq> [] \<and> sequence_err (map normalized_linspace (rev sz)) = Inr coords_list \<and>
    split_last means = Inr mean_list \<and>
    sequence_err (map (\<lambda>(x, mean). sq_dist x mean) (zip coords_list mean_list)) = Inr dists \<longrightarrow>
      make_gauss means sz 0 nrm = Inl ZeroDivisionError) \<and>
   (\<exists>e. kl_reg_losses heatmaps mu_t 0 = Inl e) \<and>
   (\<exists>e. js_reg_losses heatmaps mu_t 0 = Inl e) \<and>
   make_gauss means sz sigma nrm = make_gauss means sz \<bar>sigma\<bar> nrm \<and>
   kl_reg_losses heatmaps mu_t sigma = kl_reg_losses heatmaps mu_t \<bar>sigma\<bar> \<and>
   js_reg_losses heatmaps mu_t sigma = js_reg_losses heatmaps mu_t \<bar>sigma\<bar>"
proof -
  have kl: "\<exists>e. kl_reg_losses heatmaps mu_t 0 = Inl e"
    using make_gauss_sigma_zero
      [of mu_t "map int (hm_dims (shape heatmaps) (last (shape mu_t)))" True]
    by (auto simp: kl_reg_losses_def Let_def)
  have js: "\<exists>e. js_reg_losses heatmaps mu_t 0 = Inl e"
    using make_gauss_sigma_zero
      [of mu_t "map int (hm_dims (shape heatmaps) (last (shape mu_t)))" True]
    by (auto simp: js_reg_losses_def Let_def)
  show ?thesis
    using kl js make_gauss_sigma_zero [of means sz nrm]
    by (auto simp: normalized_linspace_invalid make_gauss_sigma_zero_error make_gauss_abs
        kl_reg_losses_def js_reg_losses_def)
qed

lemma gauss_steps_example:
  "[2::int] \<noteq> [] \<and>
   sequence_err (map normalized_linspace (rev [2])) = Inr [Tensor [2] [- (1 / 2), 1 / 2]] \<and>
   split_last (Tensor [1] [0]) = Inr [Tensor [1] [0]] \<and>
   sequence_err (map (\<lambda>(x, mean). sq_dist x mean)
      (zip [Tensor [2] [- (1 / 2), 1 / 2]] [Tensor [1] [0]])) = Inr [Tensor [2] [1 / 4, 1 / 4]]"
  by (simp add: eval_defs power2_eq_square numeral_2_eq_2)

theorem invalid_parameters_counterexample:
  "normalized_linspace 0 = Inl ZeroDivisionError \<and>
   make_gauss (Tensor [1] [0]) [2] 0 True = Inl ZeroDivisionError"
  using gauss_steps_example make_gauss_sigma_zero_error [of "[2]" _ "Tensor [1] [0]" _ _ True]
  by (simp add: normalized_linspace_def)

theorem invalid_parameters_witness:
  "(0::int) < 1 \<and> normalized_linspace 0 = Inl ZeroDivisionError \<and>
   (- 3::int) < 1 \<and> normalized_linspace (- 3) = Inl RuntimeError \<and>
   make_gauss (Tensor [1] [0]) [2] 0 False = Inl ZeroDivisionError \<and>
   make_gauss (Tensor [1] [0]) [2] (- 1) False = make_gauss (Tensor [1] [0]) [2] 1 False"
proof -
  note a = gauss_steps_example
  show ?thesis
    using a invalid_parameters [of 0 "Tensor [1] [0]" "[2]" False
        "[Tensor [2] [- (1 / 2), 1 / 2]]" "[Tensor [1] [0]]" "[Tensor [2] [1 / 4, 1 / 4]]"
        "Tensor [1, 2] [1, 0]" "Tensor [1] [0]" "- 1"]
      invalid_parameters [of "- 3" "Tensor [1] [0]" "[2]" False
        "[Tensor [2] [- (1 / 2), 1 / 2]]" "[Tensor [1] [0]]" "[Tensor [2] [1 / 4, 1 / 4]]"
        "Tensor [1, 2] [1, 0]" "Tensor [1] [0]" "- 1"]
    by simp
qed

subsection \<open>Sums along an axis\<close>

lemma sum_list_const_map:
  "(\<And>x. x \<in> set xs \<Longrightarrow> f x = (c::nat)) \<Longrightarrow> sum_list (map f xs) = length xs * c"
  by (induction xs) auto

lemma set_chunks_subset: "c \<in> set (chunks m n xs) \<Longrightarrow> set c \<subseteq> set xs"
  by (auto simp: chunks_def dest: in_set_takeD in_set_dropD)

lemma length_sum_axis:
  "length xs = prod_list s \<Longrightarrow> a < length s \<Longrightarrow> length (sum_axis a s xs) = prod_list (s[a := 1])"
proof (induction a s xs rule: sum_axis.induct)
  case (1 k xs)
  then show ?case by simp
next
  case (2 n s xs)
  then show ?case by simp
next
  case (3 k n s xs)
  from "3.prems" have l: "length xs = n * prod_list s" and k: "k < length s" by simp_all
  have "length (sum_axis k s c) = prod_list (s[k := 1])"
    if "c \<in> set (chunks (prod_list s) n xs)" for c
    using "3.IH" [OF that chunks_lengths [OF l that] k] .
  then have "sum_list (map (length \<circ> sum_axis k s) (chunks (prod_list s) n xs)) =
      n * prod_list (s[k := 1])"
    using sum_list_const_map [of "chunks (prod_list s) n xs" "length \<circ> sum_axis k s"]
    by simp
  then show ?case by (simp add: length_concat)
qed

lemma sum_list_upt: "sum_list (map f [0..<n]) = (\<Sum>i<n. (f i :: real))"
  by (simp add: interv_sum_list_conv_sum_set_nat atLeast0LessThan)





subsection \<open>One-hot samples\<close>

lemma flat_index_less: "valid_cell s c \<Longrightarrow> flat_index s c < prod_list s"
proof (induction s c rule: flat_index.induct)
  case (1 n s i c)
  then have i: "i < n" and v: "valid_cell s c" by (simp_all add: valid_cell_def)
  from "1.IH" [OF v] have "i * prod_list s + flat_index s c < Suc i * prod_list s" by simp
  also have "\<dots> \<le> n * prod_list s" using i by (intro mult_le_mono1) simp
  finally show ?case by simp
qed (auto simp: valid_cell_def)

lemma valid_cell_Cons: "valid_cell (n # s) (i # c) \<longleftrightarrow> i < n \<and> valid_cell s c"
  by (simp add: valid_cell_def)

lemma valid_cell_length: "valid_cell s c \<Longrightarrow> length c = length s"
  by (simp add: valid_cell_def list_all2_lengthD)

lemma one_hot_Cons:
  assumes "i < n" "valid_cell s c"
  shows "one_hot (n # s) (i # c) =
    replicate (i * prod_list s) 0 @ one_hot s c @ replicate ((n - Suc i) * prod_list s) 0"
proof -
  let ?Q = "prod_list s"
  have "n = i + (1 + (n - Suc i))" using assms(1) by simp
  then have "n * ?Q = i * ?Q + (?Q + (n - Suc i) * ?Q)"
    by (metis add_mult_distrib mult_1)
  then have "replicate (n * ?Q) (0::real) =
      replicate (i * ?Q) 0 @ replicate ?Q 0 @ replicate ((n - Suc i) * ?Q) 0"
    by (simp add: replicate_add)
  then show ?thesis
    using flat_index_less [OF assms(2)]
    by (simp add: one_hot_def list_update_append)
qed

lemma length_one_hot [simp]: "length (one_hot s c) = prod_list s"
  by (simp add: one_hot_def)

lemma chunks_add:
  "length xs = a * m \<Longrightarrow> chunks m (a + b) (xs @ ys) = chunks m a xs @ chunks m b ys"
proof (induction a arbitrary: xs)
  case 0
  then show ?case by simp
next
  case (Suc a)
  then have "length (drop m xs) = a * m" by simp
  from Suc.IH [OF this] Suc.prems show ?case
    by (simp add: chunks_Suc)
qed

lemma chunks_replicate: "chunks m n (replicate (n * m) x) = replicate n (replicate m x)"
  by (induction n) (simp_all add: replicate_add chunks_append)

lemma chunks_one_hot:
  assumes "i < n" "valid_cell s c"
  shows "chunks (prod_list s) n (one_hot (n # s) (i # c)) =
    replicate i (replicate (prod_list s) 0) @ one_hot s c #
    replicate (n - Suc i) (replicate (prod_list s) 0)"
proof -
  let ?Q = "prod_list s"
  have n: "n = i + Suc (n - Suc i)" using assms(1) by simp
  have "chunks ?Q (i + Suc (n - Suc i))
      (replicate (i * ?Q) 0 @ one_hot s c @ replicate ((n - Suc i) * ?Q) 0) =
    chunks ?Q i (replicate (i * ?Q) 0) @
    chunks ?Q (Suc (n - Suc i)) (one_hot s c @ replicate ((n - Suc i) * ?Q) (0::real))"
    by (rule chunks_add) simp
  also have "\<dots> = replicate i (replicate ?Q 0) @ one_hot s c #
      chunks ?Q (n - Suc i) (replicate ((n - Suc i) * ?Q) 0)"
    by (simp add: chunks_replicate chunks_append)
  finally show ?thesis
    using n by (simp add: one_hot_Cons [OF assms] chunks_replicate)
qed

lemma concat_replicate_replicate:
  "concat (replicate n (replicate m x)) = replicate (n * m) x"
  by (induction n) (simp_all add: replicate_add)

lemma sum_axis_zeros:
  "a < length s \<Longrightarrow> sum_axis a s (replicate (prod_list s) 0) = replicate (prod_list (s[a := 1])) 0"
proof (induction a arbitrary: s)
  case 0
  then obtain n s' where s: "s = n # s'" by (cases s) auto
  have "(replicate (n * prod_list s') (0::real)) ! (j * prod_list s' + q) = 0"
    if "j < n" "q < prod_list s'" for j q
  proof -
    have "j * prod_list s' + q < Suc j * prod_list s'" using that by simp
    also have "\<dots> \<le> n * prod_list s'" using that by (intro mult_le_mono1) simp
    finally show ?thesis by simp
  qed
  then have "sum_list (map (\<lambda>j. replicate (n * prod_list s') (0::real) ! (j * prod_list s' + q)) [0..<n]) = 0"
    if "q < prod_list s'" for q
    using that by (simp add: sum_list_upt)
  then have "map (\<lambda>q. sum_list (map (\<lambda>j. replicate (n * prod_list s') (0::real) !
        (j * prod_list s' + q)) [0..<n])) [0..<prod_list s'] = map (\<lambda>q. 0) [0..<prod_list s']"
    by (intro map_cong) simp_all
  then show ?case
    by (simp add: s map_replicate_const)
next
  case (Suc a)
  then obtain n s' where s: "s = n # s'" and a: "a < length s'" by (cases s) auto
  show ?case
    by (simp add: s chunks_replicate Suc.IH [OF a] concat_replicate_replicate)
qed

text \<open>Summing a one-hot sample along an axis leaves a one-hot sample.\<close>

lemma sum_axis_one_hot:
  "valid_cell s c \<Longrightarrow> a < length s \<Longrightarrow>
   sum_axis a s (one_hot s c) = one_hot (s[a := 1]) (c[a := 0])"
proof (induction a arbitrary: s c)
  case 0
  then obtain n s' i c' where s: "s = n # s'" and c: "c = i # c'"
    and i: "i < n" and v: "valid_cell s' c'"
    by (cases s; cases c) (auto simp: valid_cell_def)
  let ?Q = "prod_list s'"
  let ?f = "flat_index s' c'"
  have f: "?f < ?Q" by (rule flat_index_less [OF v])
  have ix: "j * ?Q + q < n * ?Q" if "j < n" "q < ?Q" for j q
  proof -
    have "j * ?Q + q < Suc j * ?Q" using that by simp
    also have "\<dots> \<le> n * ?Q" using that by (intro mult_le_mono1) simp
    finally show ?thesis .
  qed
  have eq: "j * ?Q + q = i * ?Q + ?f \<longleftrightarrow> j = i \<and> q = ?f" if "q < ?Q" for j q
  proof
    assume e: "j * ?Q + q = i * ?Q + ?f"
    from e have "(j * ?Q + q) div ?Q = (i * ?Q + ?f) div ?Q" by simp
    then have "j = i" using that f by simp
    with e show "j = i \<and> q = ?f" by simp
  qed simp
  have entry: "one_hot s c ! (j * ?Q + q) = (if j = i \<and> q = ?f then 1 else 0)"
    if "j < n" "q < ?Q" for j q
  proof -
    have "one_hot s c ! k = (if k = i * ?Q + ?f then 1 else 0)" if "k < n * ?Q" for k
      using that ix [OF i f] by (simp add: one_hot_def s c nth_list_update)
    from this [OF ix [OF that]] show ?thesis
      unfolding eq [OF that(2)] .
  qed
  have row: "sum_list (map (\<lambda>j. one_hot s c ! (j * ?Q + q)) [0..<n]) = (if q = ?f then 1 else 0)"
    if "q < ?Q" for q
  proof -
    have "sum_list (map (\<lambda>j. one_hot s c ! (j * ?Q + q)) [0..<n]) =
        (\<Sum>j<n. if j = i \<and> q = ?f then 1 else 0)"
      unfolding sum_list_upt using entry that by (intro sum.cong) simp_all
    also have "\<dots> = (if q = ?f then 1 else 0)"
      using i by (cases "q = ?f") simp_all
    finally show ?thesis .
  qed
  have "sum_axis 0 s (one_hot s c) = (replicate ?Q 0)[?f := 1]"
    using row by (simp add: s list_eq_iff_nth_eq nth_list_update)
  then show ?case by (simp add: s c one_hot_def)
next
  case (Suc a)
  then obtain n s' i c' where s: "s = n # s'" and c: "c = i # c'"
    and i: "i < n" and v: "valid_cell s' c'" and a: "a < length s'"
    by (cases s; cases c) (auto simp: valid_cell_def)
  have v': "valid_cell (s'[a := 1]) (c'[a := 0])"
    using v a by (simp add: valid_cell_def list_all2_conv_all_nth nth_list_update)
  show ?case
    using one_hot_Cons [OF i v', symmetric]
    by (simp add: s c chunks_one_hot [OF i v] Suc.IH [OF v a] sum_axis_zeros [OF a]
        concat_replicate_replicate)
qed

subsection \<open>The marginal of one sample\<close>

lemma length_marg_shape [simp]: "length (marg_shape as p s) = length s"
  by (induction as arbitrary: s) simp_all

lemma marg_shape_nth:
  "i < length s \<Longrightarrow> marg_shape as p s ! i = (if i \<in> set as \<and> i \<noteq> p then 1 else s ! i)"
  by (induction as arbitrary: s) (auto simp: nth_list_update)

lemma length_marg_data:
  "length xs = prod_list s \<Longrightarrow> \<forall>a\<in>set as. a < length s \<Longrightarrow>
   length (marg_data as p s xs) = prod_list (marg_shape as p s)"
  by (induction as arbitrary: s xs) (simp_all add: length_sum_axis)



lemma valid_cell_update:
  "valid_cell s c \<Longrightarrow> valid_cell (s[a := 1]) (c[a := 0])"
  by (cases "a < length s")
     (simp_all add: valid_cell_def list_all2_conv_all_nth nth_list_update)

lemma marg_data_one_hot:
  "valid_cell s c \<Longrightarrow> \<forall>a\<in>set as. a < length s \<Longrightarrow>
   marg_data as p s (one_hot s c) =
     one_hot (marg_shape as p s) (fold (\<lambda>a c. if a \<noteq> p then c[a := 0] else c) as c)"
proof (induction as arbitrary: s c)
  case Nil
  then show ?case by simp
next
  case (Cons a as)
  show ?case
  proof (cases "a = p")
    case True
    with Cons show ?thesis by simp
  next
    case False
    from Cons.prems have a: "a < length s" and as: "\<forall>b\<in>set as. b < length (s[a := 1])"
      by simp_all
    from Cons.IH [OF valid_cell_update [OF Cons.prems(1)] as] False
    show ?thesis
      by (simp add: sum_axis_one_hot [OF Cons.prems(1) a])
  qed
qed

lemma fold_zero_nth:
  "i < length c \<Longrightarrow>
   fold (\<lambda>a c. if a \<noteq> p then c[a := 0] else c) as c ! i =
     (if i \<in> set as \<and> i \<noteq> p then (0::nat) else c ! i)"
  by (induction as arbitrary: c) (auto simp: nth_list_update)

lemma length_fold_zero [simp]:
  "length (fold (\<lambda>a c. if a \<noteq> p then c[a := (0::nat)] else c) as c) = length c"
  by (induction as arbitrary: c) simp_all

lemma prod_list_ones: "\<forall>i<length xs. xs ! i = (1::nat) \<Longrightarrow> prod_list xs = 1"
proof (induction xs)
  case Nil
  then show ?case by simp
next
  case (Cons x xs)
  from Cons.prems have "x = 1" by auto
  moreover from Cons.prems have "\<forall>i<length xs. xs ! i = 1" by auto
  ultimately show ?case using Cons.IH by simp
qed

lemma prod_list_single:
  "p < length xs \<Longrightarrow> \<forall>i<length xs. i \<noteq> p \<longrightarrow> xs ! i = (1::nat) \<Longrightarrow> prod_list xs = xs ! p"
proof (induction xs arbitrary: p)
  case Nil
  then show ?case by simp
next
  case (Cons x xs)
  show ?case
  proof (cases p)
    case 0
    with Cons.prems have "\<forall>i<length xs. xs ! i = 1" by auto
    then show ?thesis using 0 by (simp add: prod_list_ones)
  next
    case (Suc q)
    with Cons.prems have "x = 1" by auto
    moreover from Cons.prems Suc have "\<forall>i<length xs. i \<noteq> q \<longrightarrow> xs ! i = 1" by auto
    ultimately show ?thesis using Cons.IH [of q] Cons.prems(1) Suc by simp
  qed
qed

lemma flat_index_zeros: "\<forall>i<length c. c ! i = 0 \<Longrightarrow> flat_index s c = 0"
proof (induction s c rule: flat_index.induct)
  case (1 n s i c)
  from "1.prems" have "i = 0" by auto
  moreover from "1.prems" have "\<forall>i<length c. c ! i = 0" by auto
  ultimately show ?case using "1.IH" by simp
qed simp_all

lemma flat_index_single:
  "length c = length s \<Longrightarrow> p < length s \<Longrightarrow> \<forall>i<length s. i \<noteq> p \<longrightarrow> c ! i = 0 \<Longrightarrow>
   \<forall>i<length s. i \<noteq> p \<longrightarrow> s ! i = 1 \<Longrightarrow> flat_index s c = c ! p"
proof (induction c s arbitrary: p rule: list_induct2)
  case Nil
  then show ?case by simp
next
  case (Cons i c n s)
  show ?case
  proof (cases p)
    case 0
    with Cons.prems have "\<forall>i<length c. c ! i = 0" and "\<forall>i<length s. s ! i = 1"
      using Cons.hyps by auto
    then show ?thesis using 0 by (simp add: flat_index_zeros prod_list_ones)
  next
    case (Suc q)
    with Cons.prems have "i = 0" by auto
    moreover from Cons.prems Suc have "\<forall>i<length s. i \<noteq> q \<longrightarrow> c ! i = 0"
      and "\<forall>i<length s. i \<noteq> q \<longrightarrow> s ! i = 1" by auto
    ultimately show ?thesis using Cons.IH [of q] Cons.prems(1) Suc by simp
  qed
qed

lemma prod_marg_shape:
  "p < length s \<Longrightarrow> prod_list (marg_shape [0..<length s] p s) = s ! p"
  using prod_list_single [of p "marg_shape [0..<length s] p s"]
  by (simp add: marg_shape_nth)

text \<open>The marginal of a one-hot sample along the axis \<open>p\<close> is one-hot at the cell's index.\<close>

lemma marginal_one_hot:
  assumes "valid_cell s c" "p < length s"
  shows "marg_data [0..<length s] p s (one_hot s c) = (replicate (s ! p) 0)[c ! p := 1]"
proof -
  let ?c = "fold (\<lambda>a c. if a \<noteq> p then c[a := 0] else c) [0..<length s] c"
  let ?s = "marg_shape [0..<length s] p s"
  have lc: "length c = length s" by (rule valid_cell_length [OF assms(1)])
  have "flat_index ?s ?c = ?c ! p"
    using assms(2) lc by (intro flat_index_single) (simp_all add: fold_zero_nth marg_shape_nth)
  also have "\<dots> = c ! p" using assms(2) lc by (simp add: fold_zero_nth)
  finally have "one_hot ?s ?c = (replicate (s ! p) 0)[c ! p := 1]"
    by (simp add: one_hot_def prod_marg_shape [OF assms(2)])
  then show ?thesis
    using marg_data_one_hot [OF assms(1), of "[0..<length s]" p] by simp
qed

subsection \<open>The loop over a batch\<close>

lemma wrap_dim_neg: "a < n \<Longrightarrow> wrap_dim (Suc n) (int a - int n) = Inr (Suc a)"
  by (simp add: wrap_dim_def nat_add_distrib) 

lemma sum_dim_batch:
  "a < length s \<Longrightarrow>
   sum_dim (int a - int (length s)) True (Tensor (B # s) xs) =
     Inr (Tensor (B # s[a := 1]) (concat (map (sum_axis a s) (chunks (prod_list s) B xs))))"
  using wrap_dim_neg [of a "length s"] by (simp add: sum_dim_def)

lemma marginalize_fold:
  assumes "\<forall>a\<in>set as. a < length s" "length xs = B * prod_list s"
  shows "fold_err (\<lambda>i summed. if i \<noteq> int p - int (length s) then sum_dim i True summed
                               else Inr summed)
           (map (\<lambda>a. int a - int (length s)) as) (Tensor (B # s) xs) =
         Inr (Tensor (B # marg_shape as p s)
                (concat (map (marg_data as p s) (chunks (prod_list s) B xs))))"
  using assms
proof (induction as arbitrary: s xs)
  case Nil
  then show ?case by (simp add: concat_chunks)
next
  case (Cons a as)
  from Cons.prems have a: "a < length s" and as: "\<forall>b\<in>set as. b < length (s[a := 1])"
    by simp_all
  show ?case
  proof (cases "a = p")
    case True
    with Cons.IH [of s xs] Cons.prems show ?thesis by simp
  next
    case False
    let ?cs = "chunks (prod_list s) B xs"
    let ?xs = "concat (map (sum_axis a s) ?cs)"
    have len: "length (sum_axis a s c) = prod_list (s[a := 1])" if "c \<in> set ?cs" for c
      using length_sum_axis [OF chunks_lengths [OF Cons.prems(2) that] a] .
    then have "sum_list (map (length \<circ> sum_axis a s) ?cs) = B * prod_list (s[a := 1])"
      using sum_list_const_map [of ?cs "length \<circ> sum_axis a s"] by simp
    then have l: "length ?xs = B * prod_list (s[a := 1])"
      by (simp add: length_concat)
    have ch: "chunks (prod_list (s[a := 1])) B ?xs = map (sum_axis a s) ?cs"
      using chunks_concat [of "map (sum_axis a s) ?cs" "prod_list (s[a := 1])"] len
      by auto
    from Cons.IH [OF as l] False a show ?thesis
      by (simp add: sum_dim_batch ch comp_def del: One_nat_def)
  qed
qed

lemma marginalize_batch:
  assumes "j < length s" "length xs = B * prod_list s"
  shows "marginalize (- 1 - int j) (length s) (Tensor (B # s) xs) =
         Inr (Tensor (B # marg_shape [0..<length s] (length s - 1 - j) s)
                (concat (map (marg_data [0..<length s] (length s - 1 - j) s)
                           (chunks (prod_list s) B xs))))"
proof -
  have eq: "- 1 - int j = int (length s - 1 - j) - int (length s)"
    using assms(1) by (simp add: of_nat_diff)
  show ?thesis
    unfolding marginalize_def eq
    by (rule marginalize_fold) (use assms(2) in simp_all)
qed

subsection \<open>Views\<close>

lemma count_list_map_int: "count_list (map int s) (- 1) = 0"
  by (induction s) simp_all

lemma list_ex_map_int: "\<not> list_ex (\<lambda>x. x < - 1) (map int s)"
  by (induction s) simp_all

lemma filter_map_int: "filter (\<lambda>x. x \<noteq> - 1) (map int s) = map int s"
  by (induction s) simp_all

lemma prod_list_map_int: "prod_list (map int s) = int (prod_list s)"
  by (induction s) simp_all

lemma map_nat_int: "map ((\<lambda>x. if x = - 1 then k else nat x) \<circ> int) s = s"
  by (induction s) simp_all

lemma view_exact: "prod_list s = numel t \<Longrightarrow> view (map int s) t = Inr (Tensor s (data t))"
  by (simp add: view_def count_list_map_int list_ex_map_int prod_list_map_int comp_def)

lemma view_infer_hd:
  "0 < prod_list s \<Longrightarrow> numel t = B * prod_list s \<Longrightarrow>
   view (- 1 # map int s) t = Inr (Tensor (B # s) (data t))"
  by (simp add: view_def count_list_map_int list_ex_map_int filter_map_int prod_list_map_int
      map_nat_int)

lemma view_infer_last:
  "0 < B \<Longrightarrow> numel t = B * L \<Longrightarrow> view [int B, - 1] t = Inr (Tensor [B, L] (data t))"
  by (simp add: view_def)

lemma view_infer_rows:
  "0 < L \<Longrightarrow> numel t = R * L \<Longrightarrow> view [- 1, int L] t = Inr (Tensor [R, L] (data t))"
  by (simp add: view_def)

subsection \<open>Rows against one coordinate vector\<close>

lemma broadcast_shapes_row: "broadcast_shapes [B, L] [1, L] = Inr [B, L]"
  by (simp add: broadcast_shapes_def)

lemma expand_row: "length cs = L \<Longrightarrow> expand_data [1, L] [B, L] cs = concat (replicate B cs)"
proof (cases "B = 1")
  case True
  assume "length cs = L"
  then have "expand_data [1, L] [1, L] cs = cs"
    by (intro expand_data_same) simp
  with True show ?thesis by (simp del: expand_data.simps)
next
  case False
  assume "length cs = L"
  then have "expand_data [L] [L] cs = cs"
    by (intro expand_data_same) simp
  with False show ?thesis
    by (subst expand_data.simps(1)) (simp del: expand_data.simps)
qed

lemma map2_concat_rows:
  "\<forall>r\<in>set rows. length r = length cs \<Longrightarrow>
   map2 f (concat rows) (concat (replicate (length rows) cs)) =
     concat (map (\<lambda>r. map2 f r cs) rows)"
  by (induction rows) simp_all

lemma concat_map_single: "concat (map (\<lambda>x. [f x]) xs) = map f xs"
  by (induction xs) simp_all

lemma sum_last_2d:
  assumes "length ws = B * L"
  shows "sum_dim (- 1) False (Tensor [B, L] ws) = Inr (Tensor [B] (map sum_list (chunks L B ws)))"
proof -
  have "sum_axis 0 [L] r = [sum_list r]" if "r \<in> set (chunks L B ws)" for r
  proof -
    have "length r = L" by (rule chunks_lengths [OF assms that])
    then have "map ((!) r) [0..<L] = r" using map_nth [of r] by simp
    then show ?thesis by simp
  qed
  then have m: "map (sum_axis 0 [L]) (chunks L B ws) = map (\<lambda>r. [sum_list r]) (chunks L B ws)"
    by simp
  have pl: "prod_list [L] = L" by simp
  have "sum_axis (Suc 0) [B, L] ws = map sum_list (chunks L B ws)"
    unfolding sum_axis.simps(3) pl m concat_map_single ..
  then show ?thesis
    by (simp add: sum_dim_def wrap_dim_def del: sum_axis.simps)
qed

text \<open>The rows of a tensor of two axes, each weighted by the same coordinates and summed.\<close>

lemma length_concat_rows:
  "\<forall>r\<in>set rows. length r = L \<Longrightarrow> length (concat rows) = length rows * L"
  using sum_list_const_map [of rows length L] by (simp add: length_concat)

lemma broadcast_rows:
  assumes "\<forall>r\<in>set rows. length r = L" "length cs = L"
  shows "broadcast_op f (Tensor [length rows, L] (concat rows)) (Tensor [1, L] cs) =
     Inr (Tensor [length rows, L] (concat (map (\<lambda>r. map2 f r cs) rows)))"
proof -
  let ?B = "length rows"
  have l: "length (concat rows) = ?B * L"
    by (rule length_concat_rows [OF assms(1)])
  have e1: "expand_to [?B, L] (Tensor [?B, L] (concat rows)) = concat rows"
    using expand_to_same [of "Tensor [?B, L] (concat rows)"] l by (simp add: wf_tensor_def)
  have e2: "expand_to [?B, L] (Tensor [1, L] cs) = concat (replicate ?B cs)"
    using expand_row [OF assms(2)] by (simp add: expand_to_def)
  have m: "map2 f (concat rows) (concat (replicate ?B cs)) =
      concat (map (\<lambda>r. map2 f r cs) rows)"
    using assms by (intro map2_concat_rows) simp
  show ?thesis
    unfolding broadcast_op_def by (simp add: broadcast_shapes_row e1 e2 m del: One_nat_def)
qed

lemma sum_rows:
  assumes "\<forall>r\<in>set rows. length r = L" "length cs = L"
  shows "sum_dim (- 1) False (Tensor [length rows, L] (concat (map (\<lambda>r. map2 f r cs) rows))) =
     Inr (Tensor [length rows] (map (\<lambda>r. sum_list (map2 f r cs)) rows))"
proof -
  let ?B = "length rows"
  have lw: "length (concat (map (\<lambda>r. map2 f r cs) rows)) = ?B * L"
    using length_concat_rows [of "map (\<lambda>r. map2 f r cs) rows" L] assms by simp
  have "chunks L (length (map (\<lambda>r. map2 f r cs) rows))
      (concat (map (\<lambda>r. map2 f r cs) rows)) = map (\<lambda>r. map2 f r cs) rows"
    by (rule chunks_concat) (use assms in auto)
  then have ch: "chunks L ?B (concat (map (\<lambda>r. map2 f r cs) rows)) = map (\<lambda>r. map2 f r cs) rows"
    by simp
  show ?thesis
    by (simp add: sum_last_2d [OF lw] ch comp_def)
qed

subsection \<open>The coordinate expectation of a batch\<close>

lemma prod_list_pos_nth: "0 < prod_list s \<Longrightarrow> p < length s \<Longrightarrow> 0 < (s ! p :: nat)"
  by (induction s arbitrary: p) (auto simp: nth_Cons split: nat.splits)

lemma normalized_linspace_nat:
  assumes "0 < L"
  shows "normalized_linspace (int L) = Inr (Tensor [L] (map (axis_value L) [0..<L]))"
proof -
  from assms have "1 \<le> int L" by simp
  from normalized_linspace_closed [OF this] obtain cs
    where eq: "normalized_linspace (int L) = Inr (Tensor [L] cs)" and l: "length cs = L"
    by simp
  have "map (axis_value L) [0..<L] = map ((!) cs) [0..<length cs]"
    by (simp add: axis_value_def eq l)
  then show ?thesis by (simp add: eq map_nth)
qed

lemma coord_expectation_value:
  assumes wf: "wf_tensor h" and sh: "shape h = batch @ s" and j: "j < length s"
    and B: "0 < prod_list batch" and Q: "0 < prod_list s"
  shows "coord_expectation h (- 1 - int j) (length s) None =
     Inr (Tensor (if batch = [] then [1] else batch)
        (map (sample_expectation s (length s - 1 - j))
             (chunks (prod_list s) (prod_list batch) (data h))))"
proof -
  let ?n = "length s"
  let ?p = "?n - 1 - j"
  let ?L = "s ! ?p"
  let ?B = "prod_list batch"
  let ?cs = "map (axis_value ?L) [0..<?L]"
  let ?ms = "marg_shape [0..<?n] ?p s"
  let ?rows = "map (marg_data [0..<?n] ?p s) (chunks (prod_list s) ?B (data h))"
  from j have p: "?p < ?n" by simp
  have L: "0 < ?L" by (rule prod_list_pos_nth [OF Q p])
  have len: "length (data h) = ?B * prod_list s"
    using wf sh by (simp add: wf_tensor_def)
  have num: "numel h = ?B * prod_list s" by (simp add: numel_def sh)
  have w: "wrap_dim (length (shape h)) (- 1 - int j) = Inr (length batch + ?p)"
    using j by (simp add: wrap_dim_def sh nat_diff_distrib of_nat_diff)
  have nth: "shape h ! (length batch + ?p) = ?L" by (simp add: sh)
  have nl: "normalized_linspace (int ?L) = Inr (Tensor [?L] ?cs)"
    by (rule normalized_linspace_nat [OF L])
  have hd: "hm_dims (shape h) ?n = s" using j by (auto simp: hm_dims_def sh)
  have fd: "first_dims (shape h) ?n = batch" using j by (auto simp: first_dims_def sh)
  have v1: "view (- 1 # map int s) h = Inr (Tensor (?B # s) (data h))"
    by (rule view_infer_hd [OF Q num])
  have mg: "marginalize (- 1 - int j) ?n (Tensor (?B # s) (data h)) =
      Inr (Tensor (?B # ?ms) (concat ?rows))"
    by (rule marginalize_batch [OF j len])
  have rl: "\<forall>r\<in>set ?rows. length r = ?L"
  proof
    fix r assume "r \<in> set ?rows"
    then obtain c where c: "c \<in> set (chunks (prod_list s) ?B (data h))"
      and r: "r = marg_data [0..<?n] ?p s c" by auto
    have "length c = prod_list s" by (rule chunks_lengths [OF len c])
    then show "length r = ?L"
      unfolding r using prod_marg_shape [OF p] by (simp add: length_marg_data)
  qed
  have lr: "length ?rows = ?B" by simp
  have lcs: "length ?cs = ?L" by simp
  have v2: "view [int ?B, - 1] (Tensor (?B # ?ms) (concat ?rows)) =
      Inr (Tensor [?B, ?L] (concat ?rows))"
    using view_infer_last [OF B, of "Tensor (?B # ?ms) (concat ?rows)" ?L] prod_marg_shape [OF p]
    by (simp add: numel_def)
  have v3: "view [- 1, int ?L] (Tensor [?L] ?cs) = Inr (Tensor [1, ?L] ?cs)"
    using view_infer_rows [OF L, of "Tensor [?L] ?cs" 1] by (simp add: numel_def)
  have br: "broadcast_op (*) (Tensor [?B, ?L] (concat ?rows)) (Tensor [1, ?L] ?cs) =
      Inr (Tensor [?B, ?L] (concat (map (\<lambda>r. map2 (*) r ?cs) ?rows)))"
    using broadcast_rows [OF rl lcs, of "(*)"] by (simp only: lr)
  have sr: "sum_dim (- 1) False (Tensor [?B, ?L] (concat (map (\<lambda>r. map2 (*) r ?cs) ?rows))) =
      Inr (Tensor [?B] (map (\<lambda>r. sum_list (map2 (*) r ?cs)) ?rows))"
    using sum_rows [OF rl lcs, of "(*)"] by (simp only: lr)
  have v4: "view (map int batch) (Tensor [?B] es) = Inr (Tensor batch es)" for es
    using view_exact [of batch "Tensor [?B] es"] by (simp add: numel_def)
  have one: "batch = [] \<Longrightarrow> ?B = 1" by simp
  show ?thesis
    unfolding coord_expectation_def
    apply (simp only: w sum.case nth nl option.case hd v1 mg tensor.sel list.sel v2
        list.distinct simp_thms if_False last.simps if_True v3 br sr fd v4
        length_greater_0_conv)
    apply (cases "batch = []")
     apply (simp_all add: comp_def sample_expectation_def)
    done
qed

lemma map_nth_fun: "map (\<lambda>p. g (xs ! p)) [0..<length xs] = map g xs"
  by (rule nth_equalityI) simp_all

lemma sequence_err_map_Inr: "sequence_err (map (\<lambda>x. Inr (f x)) xs) = Inr (map f xs)"
  by (induction xs) simp_all

lemma stack_last_same_shape:
  "ts \<noteq> [] \<Longrightarrow> \<forall>u\<in>set ts. shape u = sh \<Longrightarrow>
   stack_last ts = Inr (Tensor (sh @ [length ts])
      (concat (map (\<lambda>p. map (\<lambda>u. data u ! p) ts) [0..<prod_list sh])))"
  by (cases ts) (auto simp: stack_last_def list_all_iff numel_def)

text \<open>
  What \<^verbatim>\<open>dsnt\<close> returns for a batch of samples of shape \<open>s\<close>: for each sample the
  expectations along the axes, the innermost axis first.
\<close>

lemma dsnt_value:
  assumes wf: "wf_tensor h" and sh: "shape h = batch @ s" and n: "0 < length s"
    and B: "0 < prod_list batch" and Q: "0 < prod_list s"
  shows "dsnt h (length s) =
     Inr (Tensor ((if batch = [] then [1] else batch) @ [length s])
        (concat (map (\<lambda>blk. map (\<lambda>j. sample_expectation s (length s - 1 - j) blk)
                                  [0..<length s])
                     (chunks (prod_list s) (prod_list batch) (data h)))))"
proof -
  let ?n = "length s"
  let ?B = "prod_list batch"
  let ?bs = "if batch = [] then [1] else batch"
  let ?cs = "chunks (prod_list s) ?B (data h)"
  let ?E = "\<lambda>j. Tensor ?bs (map (sample_expectation s (?n - 1 - j)) ?cs)"
  have "map (\<lambda>j. coord_expectation h (- 1 - int j) ?n None) [0..<?n] =
      map (\<lambda>j. Inr (?E j)) [0..<?n]"
    using coord_expectation_value [OF wf sh _ B Q] by (intro map_cong) simp_all
  then have seq: "sequence_err (map (\<lambda>j. coord_expectation h (- 1 - int j) ?n None) [0..<?n]) =
      Inr (map ?E [0..<?n])"
    by (simp only: sequence_err_map_Inr)
  have pb: "prod_list ?bs = ?B" by simp
  have st: "stack_last (map ?E [0..<?n]) = Inr (Tensor (?bs @ [?n])
      (concat (map (\<lambda>p. map (\<lambda>u. data u ! p) (map ?E [0..<?n])) [0..<?B])))"
    using stack_last_same_shape [of "map ?E [0..<?n]" ?bs] n by (simp only: pb) simp
  have "map (\<lambda>p. map (\<lambda>u. data u ! p) (map ?E [0..<?n])) [0..<?B] =
      map (\<lambda>p. map (\<lambda>j. sample_expectation s (?n - 1 - j) (?cs ! p)) [0..<?n]) [0..<length ?cs]"
    by (intro map_cong) (simp_all add: comp_def)
  also have "\<dots> = map (\<lambda>blk. map (\<lambda>j. sample_expectation s (?n - 1 - j) blk) [0..<?n]) ?cs"
    by (rule map_nth_fun)
  finally have dt: "map (\<lambda>p. map (\<lambda>u. data u ! p) (map ?E [0..<?n])) [0..<?B] =
      map (\<lambda>blk. map (\<lambda>j. sample_expectation s (?n - 1 - j) blk) [0..<?n]) ?cs" .
  show ?thesis
    unfolding dsnt_def seq sum.case st dt ..
qed

subsection \<open>One-hot heatmaps\<close>

lemma dot_zeros: "sum_list (map2 (*) (replicate n 0) cs) = (0::real)"
  by (induction cs arbitrary: n) (simp, case_tac n, simp_all)

lemma dot_one_hot:
  "k < length cs \<Longrightarrow> sum_list (map2 (*) ((replicate (length cs) 0)[k := 1]) cs) = (cs ! k :: real)"
proof (induction cs arbitrary: k)
  case Nil
  then show ?case by simp
next
  case (Cons x cs)
  then show ?case by (cases k) (simp_all add: dot_zeros)
qed

lemma valid_cell_nth: "valid_cell s c \<Longrightarrow> p < length s \<Longrightarrow> c ! p < s ! p"
  by (simp add: valid_cell_def list_all2_conv_all_nth)

lemma sample_expectation_one_hot:
  assumes "valid_cell s c" "p < length s"
  shows "sample_expectation s p (one_hot s c) = axis_value (s ! p) (c ! p)"
proof -
  let ?cs = "map (axis_value (s ! p)) [0..<s ! p]"
  have k: "c ! p < length ?cs" using valid_cell_nth [OF assms] by simp
  have "sample_expectation s p (one_hot s c) =
      sum_list (map2 (*) ((replicate (length ?cs) 0)[c ! p := 1]) ?cs)"
    by (simp add: sample_expectation_def marginal_one_hot [OF assms])
  also have "\<dots> = ?cs ! (c ! p)" by (rule dot_one_hot [OF k])
  also have "\<dots> = axis_value (s ! p) (c ! p)" using k by simp
  finally show ?thesis .
qed

text \<open>
  C1: for a heatmap whose every sample has all its mass on one cell, whatever the batch
  shape (with at least one sample) and the number \<open>length s \<ge> 1\<close> of spatial axes,
  \<^verbatim>\<open>dsnt\<close> returns for each sample the entries of the normalized axes at the cell's
  indices, the innermost axis first.
\<close>

theorem dsnt_one_hot:
  assumes "0 < length s" and "cells \<noteq> []" and "length cells = prod_list batch"
    and "\<forall>c\<in>set cells. valid_cell s c"
  shows "dsnt (Tensor (batch @ s) (concat (map (one_hot s) cells))) (length s) =
     Inr (Tensor ((if batch = [] then [1] else batch) @ [length s])
        (concat (map (\<lambda>c. map (\<lambda>j. axis_value (s ! (length s - 1 - j)) (c ! (length s - 1 - j)))
                                [0..<length s])
                     cells)))"
proof -
  let ?n = "length s"
  let ?h = "Tensor (batch @ s) (concat (map (one_hot s) cells))"
  from assms(2) obtain c0 where "c0 \<in> set cells" by (cases cells) auto
  with assms(4) have "valid_cell s c0" by blast
  from flat_index_less [OF this] have Q: "0 < prod_list s" by simp
  have B: "0 < prod_list batch"
    using assms(2) unfolding assms(3) [symmetric] by simp
  have len: "length (concat (map (one_hot s) cells)) = length (map (one_hot s) cells) * prod_list s"
    by (rule length_concat_rows) simp
  then have wf: "wf_tensor ?h" by (simp add: wf_tensor_def assms(3))
  have "chunks (prod_list s) (length (map (one_hot s) cells)) (concat (map (one_hot s) cells)) =
      map (one_hot s) cells"
    by (rule chunks_concat) auto
  then have ch: "chunks (prod_list s) (prod_list batch) (data ?h) = map (one_hot s) cells"
    by (simp add: assms(3))
  have ex: "map (\<lambda>blk. map (\<lambda>j. sample_expectation s (?n - 1 - j) blk) [0..<?n])
        (map (one_hot s) cells) =
      map (\<lambda>c. map (\<lambda>j. axis_value (s ! (?n - 1 - j)) (c ! (?n - 1 - j))) [0..<?n]) cells"
    using assms(4) by (simp add: sample_expectation_one_hot)
  show ?thesis
    using dsnt_value [of ?h batch s] wf assms(1) B Q
    unfolding ch ex by simp
qed

lemma axis_value_formula:
  assumes "i < L"
  shows "axis_value L i = - (real L - 1) / real L + real i * 2 / real L"
proof -
  from assms have "1 \<le> int L" by simp
  from normalized_linspace_closed [OF this] assms show ?thesis
    by (simp add: axis_value_def)
qed

theorem dsnt_one_hot_witness:
  "dsnt (Tensor [2, 2, 3] [0, 1, 0, 0, 0, 0,  0, 0, 0, 0, 0, 1]) 2 =
     Inr (Tensor [2, 2] [0, - (1 / 2), 2 / 3, 1 / 2])"
proof -
  have oh: "map (one_hot [2, 3]) [[0, 1], [1, 2]] = [[0, 1, 0, 0, 0, 0], [0, 0, 0, 0, 0, 1]]"
    by (simp add: one_hot_def eval_nat_numeral)
  have v: "\<forall>c\<in>set [[0, 1], [1, 2]]. valid_cell [2, 3] c"
    by (simp add: valid_cell_def)
  have up: "[0..<2] = [0, 1]" by (simp add: eval_nat_numeral)
  show ?thesis
    using dsnt_one_hot [of "[2, 3]" "[[0, 1], [1, 2]]" "[2]", OF _ _ _ v]
    unfolding oh by (simp add: up axis_value_formula numeral_2_eq_2)
qed

subsection \<open>The range of the coordinates\<close>




lemma nth_concat_rows:
  "\<forall>r\<in>set rows. length r = n \<Longrightarrow> b < length rows \<Longrightarrow> j < n \<Longrightarrow>
   concat rows ! (b * n + j) = rows ! b ! j"
proof (induction rows arbitrary: b)
  case Nil
  then show ?case by simp
next
  case (Cons r rows)
  show ?case
  proof (cases b)
    case 0
    with Cons.prems show ?thesis by (simp add: nth_append)
  next
    case (Suc b')
    with Cons.prems have "concat rows ! (b' * n + j) = rows ! b' ! j"
      by (intro Cons.IH) simp_all
    with Cons.prems Suc show ?thesis by (simp add: nth_append)
  qed
qed




subsection \<open>The variance of a batch\<close>

text \<open>
  C6: the variance of a one-hot heatmap is 0. In \<^verbatim>\<open>_coord_variance\<close> the mean \<open>mu_x\<close> has
  the shape of the batch and is subtracted from the coordinates of the axis without an
  axis of its own, so for a batch of as many samples as the axis has cells the mean of
  sample \<open>i\<close> is subtracted from coordinate \<open>i\<close>. For the batch of the two one-hot samples
  \<open>[0, 1]\<close> and \<open>[1, 0]\<close> the code returns the variances 1 and 1.
\<close>

theorem coord_variance_one_hot_batch:
  "coord_variance (Tensor [2, 2] [0, 1, 1, 0]) (- 1) 1 = Inr (Tensor [2] [1, 1])"
  by code_simp

lemma coord_variance_one_hot_batch_2d:
  "coord_variance (Tensor [2, 1, 2] [0, 1, 1, 0]) (- 1) 2 = Inr (Tensor [2] [1, 1])"
  by code_simp

lemma coord_variance_one_hot_mismatch:
  "coord_variance (Tensor [3, 2] [0, 1, 1, 0, 1, 0]) (- 1) 1 = Inl RuntimeError"
  by code_simp

lemma coord_variance_one_hot_single:
  "coord_variance (Tensor [2] [0, 1]) (- 1) 1 = Inr (Tensor [1] [0])"
  by code_simp

lemma one_hot_batch_example:
  "Tensor [2, 2] [0, 1, 1, 0] = Tensor ([2] @ [2]) (concat (map (one_hot [2]) [[1], [0]]))"
  by (simp add: one_hot_def eval_nat_numeral)

subsection \<open>The flat softmax\<close>

lemma sum_list_divide: "sum_list (map (\<lambda>x. f x / c) xs) = sum_list (map f xs) / (c::real)"
  by (induction xs) (simp_all add: add_divide_distrib)

lemma sum_list_exp_nonneg: "0 \<le> sum_list (map exp (xs :: real list))"
  by (induction xs) simp_all

lemma sum_list_exp_pos: "xs \<noteq> [] \<Longrightarrow> 0 < sum_list (map exp (xs :: real list))"
proof (cases xs)
  case Nil
  assume "xs \<noteq> []"
  with Nil show ?thesis by simp
next
  case (Cons x ys)
  have "0 < exp x" by simp
  with sum_list_exp_nonneg [of ys] show ?thesis
    unfolding Cons by (simp add: add_pos_nonneg)
qed

lemma softmax_row_sum: "xs \<noteq> [] \<Longrightarrow> sum_list (softmax_row xs) = 1"
  using sum_list_exp_pos [of xs] by (simp add: softmax_row_def sum_list_divide)

lemma softmax_row_pos: "y \<in> set (softmax_row xs) \<Longrightarrow> 0 < y"
proof -
  assume "y \<in> set (softmax_row xs)"
  then obtain x where "x \<in> set xs" and y: "y = exp x / sum_list (map exp xs)"
    by (auto simp: softmax_row_def)
  then have "xs \<noteq> []" by auto
  from sum_list_exp_pos [OF this] show ?thesis by (simp add: y)
qed

lemma length_softmax_row [simp]: "length (softmax_row xs) = length xs"
  by (simp add: softmax_row_def)

lemma flat_softmax_value:
  assumes wf: "wf_tensor inp" and sh: "shape inp = batch @ s" and n: "0 < length s"
    and pos: "0 < numel inp"
  shows "flat_softmax inp (length s) =
     Inr (Tensor (shape inp)
            (concat (map softmax_row (chunks (prod_list s) (prod_list batch) (data inp)))))"
proof -
  let ?Q = "prod_list s"
  let ?B = "prod_list batch"
  let ?ys = "concat (map softmax_row (chunks ?Q ?B (data inp)))"
  from pos have Q: "0 < ?Q" and num: "numel inp = ?B * ?Q"
    by (simp_all add: numel_def sh)
  have hd: "hm_dims (shape inp) (length s) = s" using n by (auto simp: hm_dims_def sh)
  have rm: "reduce_mul_nat s = Inr ?Q" using n by (auto simp: reduce_mul_nat_def)
  have v1: "view [- 1, int ?Q] inp = Inr (Tensor [?B, ?Q] (data inp))"
    by (rule view_infer_rows [OF Q num])
  have sm: "softmax2 (Tensor [?B, ?Q] (data inp)) = Inr (Tensor [?B, ?Q] ?ys)"
    by (simp add: softmax2_def)
  have v2: "view (map int (shape inp)) (Tensor [?B, ?Q] ?ys) = Inr (Tensor (shape inp) ?ys)"
    using view_exact [of "shape inp" "Tensor [?B, ?Q] ?ys"] by (simp add: numel_def sh)
  show ?thesis
    unfolding flat_softmax_def Let_def hd rm sum.case v1 sm v2 ..
qed

text \<open>
  C8: for an input with at least one spatial axis and no empty axis, \<^verbatim>\<open>flat_softmax\<close>
  returns a tensor of the shape of the input whose entries are positive and sum to 1
  over the spatial axes of each sample. Run on a store, it allocates one new storage for
  its result and leaves every storage that existed, that of the input among them, as it
  was.
\<close>

theorem flat_softmax_heatmap:
  assumes wf: "wf_tensor inp" and sh: "shape inp = batch @ s" and n: "0 < length s"
    and pos: "0 < numel inp"
  shows "\<exists>out. flat_softmax inp (length s) = Inr out \<and> shape out = shape inp \<and>
           wf_tensor out \<and>
           (\<forall>y\<in>set (data out). 0 \<le> y) \<and>
           (\<forall>blk\<in>set (chunks (prod_list s) (prod_list batch) (data out)). sum_list blk = 1) \<and>
           (\<forall>st r. deref st r = inp \<and> addr r < length st \<longrightarrow>
              (\<exists>st' r'. flat_softmax_store st r (length s) = Inr (st', r') \<and>
                 deref st' r' = out \<and> take (length st) st' = st \<and> deref st' r = inp))"
proof -
  let ?Q = "prod_list s"
  let ?B = "prod_list batch"
  let ?cs = "chunks ?Q ?B (data inp)"
  let ?ys = "concat (map softmax_row ?cs)"
  let ?out = "Tensor (shape inp) ?ys"
  from pos have Q: "0 < ?Q" and num: "numel inp = ?B * ?Q"
    by (simp_all add: numel_def sh)
  have len: "length (data inp) = ?B * ?Q"
    using wf sh by (simp add: wf_tensor_def)
  have rl: "\<forall>r\<in>set (map softmax_row ?cs). length r = ?Q"
    using chunks_lengths [OF len] by auto
  have ly: "length ?ys = ?B * ?Q"
    using length_concat_rows [OF rl] by simp
  have "chunks ?Q (length (map softmax_row ?cs)) ?ys = map softmax_row ?cs"
    by (rule chunks_concat) (use rl in auto)
  then have ch: "chunks ?Q ?B ?ys = map softmax_row ?cs" by simp
  have sums: "\<forall>blk\<in>set (chunks ?Q ?B ?ys). sum_list blk = 1"
  proof
    fix blk assume "blk \<in> set (chunks ?Q ?B ?ys)"
    then obtain c where c: "c \<in> set ?cs" and blk: "blk = softmax_row c"
      unfolding ch by auto
    from chunks_lengths [OF len c] Q have "c \<noteq> []" by auto
    then show "sum_list blk = 1" unfolding blk by (rule softmax_row_sum)
  qed
  have nonneg: "\<forall>y\<in>set ?ys. 0 \<le> y"
    using softmax_row_pos by (auto intro: less_imp_le)
  have val: "flat_softmax inp (length s) = Inr ?out"
    by (rule flat_softmax_value [OF wf sh n pos])
  have store: "\<exists>st' r'. flat_softmax_store st r (length s) = Inr (st', r') \<and>
      deref st' r' = ?out \<and> take (length st) st' = st \<and> deref st' r = inp"
    if d: "deref st r = inp" and a: "addr r < length st" for st r
  proof -
    from d have rs: "rshape r = shape inp" and rd: "st ! addr r = data inp"
      by (auto simp: deref_def)
    have hd: "hm_dims (shape inp) (length s) = s" using n by (auto simp: hm_dims_def sh)
    have rm: "reduce_mul_nat s = Inr ?Q" using n by (auto simp: reduce_mul_nat_def)
    have v1: "view_ref [- 1, int ?Q] st r = Inr (TRef (addr r) [?B, ?Q])"
      using view_infer_rows [OF Q num] by (simp add: view_ref_def d)
    have d1: "deref st (TRef (addr r) [?B, ?Q]) = Tensor [?B, ?Q] (data inp)"
      by (simp add: deref_def rd)
    have sm: "softmax_ref st (TRef (addr r) [?B, ?Q]) =
        Inr (st @ [?ys], TRef (length st) [?B, ?Q])"
      unfolding softmax_ref_def d1 by (simp add: softmax2_def)
    have d2: "deref (st @ [?ys]) (TRef (length st) [?B, ?Q]) = Tensor [?B, ?Q] ?ys"
      by (simp add: deref_def)
    have v2: "view_ref (map int (shape inp)) (st @ [?ys]) (TRef (length st) [?B, ?Q]) =
        Inr (TRef (length st) (shape inp))"
      unfolding view_ref_def d2
      using view_exact [of "shape inp" "Tensor [?B, ?Q] ?ys"] by (simp add: numel_def sh)
    have "flat_softmax_store st r (length s) = Inr (st @ [?ys], TRef (length st) (shape inp))"
      unfolding flat_softmax_store_def Let_def rs hd rm sum.case v1 sm prod.case v2 ..
    moreover have "deref (st @ [?ys]) (TRef (length st) (shape inp)) = ?out"
      by (simp add: deref_def)
    moreover have "deref (st @ [?ys]) r = inp"
      using a d by (simp add: deref_def nth_append)
    ultimately show ?thesis by simp
  qed
  show ?thesis
    using val sums nonneg ly store sh by (intro exI [of _ ?out]) (simp add: wf_tensor_def)
qed

theorem flat_softmax_heatmap_witness:
  "wf_tensor (Tensor [1, 2] [0, 0]) \<and> shape (Tensor [1, 2] [0, 0]) = [1] @ [2] \<and>
   0 < numel (Tensor [1, 2] [0, 0]) \<and>
   flat_softmax (Tensor [1, 2] [0, 0]) 1 = Inr (Tensor [1, 2] [1 / 2, 1 / 2]) \<and>
   sum_list [1 / 2, 1 / 2 :: real] = 1 \<and>
   (\<exists>st' r'. flat_softmax_store [[0, 0]] (TRef 0 [1, 2]) 1 = Inr (st', r') \<and>
      deref st' r' = Tensor [1, 2] [1 / 2, 1 / 2] \<and> take 1 st' = [[0, 0]])"
proof -
  let ?inp = "Tensor [1, 2] [0, 0]"
  have wf: "wf_tensor ?inp" by (simp add: wf_tensor_def)
  have sh: "shape ?inp = [1] @ [2]" by simp
  have pos: "0 < numel ?inp" by (simp add: numel_def)
  have n: "0 < length [2::nat]" by simp
  have ev: "flat_softmax ?inp (length [2::nat]) = Inr (Tensor [1, 2] [1 / 2, 1 / 2])"
    using flat_softmax_value [OF wf sh n pos] by (simp add: chunks_def softmax_row_def)
  have d: "deref [[0, 0]] (TRef 0 [1, 2]) = ?inp \<and> addr (TRef 0 [1, 2]) < length [[0, 0 :: real]]"
    by (simp add: deref_def)
  from flat_softmax_heatmap [OF wf sh n pos] obtain out where
    o: "flat_softmax ?inp (length [2::nat]) = Inr out"
    and st: "\<forall>st r. deref st r = ?inp \<and> addr r < length st \<longrightarrow>
              (\<exists>st' r'. flat_softmax_store st r (length [2::nat]) = Inr (st', r') \<and>
                 deref st' r' = out \<and> take (length st) st' = st \<and> deref st' r = ?inp)"
    by blast
  from o ev have out: "out = Tensor [1, 2] [1 / 2, 1 / 2]" by simp
  from st d obtain st' r' where
    "flat_softmax_store [[0, 0]] (TRef 0 [1, 2]) (length [2::nat]) = Inr (st', r')"
    "deref st' r' = out" "take (length [[0, 0 :: real]]) st' = [[0, 0]]"
    by blast
  with out ev wf pos show ?thesis by auto
qed

subsection \<open>The values of the unnormalized Gaussian\<close>

lemma set_expand_data: "set (expand_data s r xs) \<subseteq> set xs"
proof (induction s r xs rule: expand_data.induct)
  case (1 m s n r xs)
  show ?case
  proof (cases "m = n")
    case True
    have "set (expand_data s r c) \<subseteq> set xs" if "c \<in> set (chunks (prod_list s) m xs)" for c
      using "1.IH"(1) [OF True that] set_chunks_subset [OF that] by blast
    with True show ?thesis by auto
  next
    case False
    with "1.IH"(2) [OF False] show ?thesis by (cases n) auto
  qed
qed simp_all

lemma set_expand_to: "set (expand_to r t) \<subseteq> set (data t)"
  by (simp add: expand_to_def set_expand_data)

lemma broadcast_op_elements:
  assumes "broadcast_op f a b = Inr c" "z \<in> set (data c)"
  shows "\<exists>x\<in>set (data a). \<exists>y\<in>set (data b). z = f x y"
proof -
  from assms obtain r where c: "c = Tensor r (map2 f (expand_to r a) (expand_to r b))"
    by (auto simp: broadcast_op_def split: sum.splits)
  with assms(2) obtain x y where "(x, y) \<in> set (zip (expand_to r a) (expand_to r b))"
    and z: "z = f x y" by auto
  then have "x \<in> set (data a)" "y \<in> set (data b)"
    using set_expand_to [of r a] set_expand_to [of r b] by (auto dest: set_zip_leftD set_zip_rightD)
  with z show ?thesis by blast
qed

lemma unit_values_mult:
  assumes "unit_values a" "unit_values b" "broadcast_op (*) a b = Inr c"
  shows "unit_values c"
  unfolding unit_values_def
proof
  fix z assume "z \<in> set (data c)"
  from broadcast_op_elements [OF assms(3) this] obtain x y
    where x: "x \<in> set (data a)" and y: "y \<in> set (data b)" and z: "z = x * y" by blast
  from x y assms(1,2) have "0 \<le> x" "x \<le> 1" "0 \<le> y" "y \<le> 1" by (auto simp: unit_values_def)
  then show "0 \<le> z \<and> z \<le> 1" unfolding z by (simp add: mult_le_one)
qed

lemma unit_values_fold_mult:
  "unit_values acc \<Longrightarrow> \<forall>u\<in>set us. unit_values u \<Longrightarrow>
   fold_err (\<lambda>u acc. broadcast_op (*) acc u) us acc = Inr g \<Longrightarrow> unit_values g"
proof (induction us arbitrary: acc)
  case Nil
  then show ?case by simp
next
  case (Cons u us)
  from Cons.prems(3) obtain acc' where a: "broadcast_op (*) acc u = Inr acc'"
    and f: "fold_err (\<lambda>u acc. broadcast_op (*) acc u) us acc' = Inr g"
    by (auto split: sum.splits)
  from Cons.prems have "unit_values acc'"
    by (intro unit_values_mult [OF _ _ a]) simp_all
  from Cons.IH [OF this _ f] Cons.prems(2) show ?case by simp
qed

lemma unit_values_reduce_mul:
  "\<forall>u\<in>set ts. unit_values u \<Longrightarrow> reduce_mul ts = Inr g \<Longrightarrow> unit_values g"
  by (cases ts) (auto simp: reduce_mul_def intro: unit_values_fold_mult)

lemma unsqueeze_data: "unsqueeze d t = Inr t' \<Longrightarrow> data t' = data t"
  by (auto simp: unsqueeze_def split: sum.splits)

lemma fold_unsqueeze_data: "fold_err unsqueeze ds t = Inr t' \<Longrightarrow> data t' = data t"
proof (induction ds arbitrary: t)
  case Nil
  then show ?case by simp
next
  case (Cons d ds)
  then show ?case by (auto split: sum.splits dest: unsqueeze_data)
qed

lemma sequence_err_all:
  "sequence_err ms = Inr xs \<Longrightarrow> list_all2 (\<lambda>m x. m = Inr x) ms xs"
proof (induction ms arbitrary: xs)
  case Nil
  then show ?case by simp
next
  case (Cons m ms)
  then show ?case by (cases m) (auto split: sum.splits)
qed

lemma sequence_err_map_elem:
  assumes "sequence_err (map f xs) = Inr ys" "y \<in> set ys"
  shows "\<exists>x\<in>set xs. f x = Inr y"
proof -
  from sequence_err_all [OF assms(1)] have l: "list_all2 (\<lambda>m x. m = Inr x) (map f xs) ys" .
  from assms(2) obtain i where i: "i < length ys" and y: "ys ! i = y"
    by (auto simp: in_set_conv_nth)
  from l i have "length xs = length ys" "f (xs ! i) = Inr (ys ! i)"
    by (auto simp: list_all2_conv_all_nth)
  with i y show ?thesis by (metis nth_mem)
qed

lemma gauss_ks_nonpos: "gauss_ks sz sigma = Inr ks \<Longrightarrow> k \<in> set ks \<Longrightarrow> k \<le> 0"
proof -
  assume a: "gauss_ks sz sigma = Inr ks" and k: "k \<in> set ks"
  from a obtain stddevs where
    "sequence_err (map (\<lambda>stddev. case py_div 1 stddev of Inl e \<Rightarrow> Inl e
                                  | Inr r \<Rightarrow> Inr (- 0.5 * r ^ 2)) stddevs) = Inr ks"
    by (auto simp: gauss_ks_def split: sum.splits)
  from sequence_err_map_elem [OF this k] obtain r where "k = - 0.5 * r ^ 2"
    by (auto simp: py_div_def split: sum.splits if_splits)
  then show ?thesis by simp
qed

lemma sq_dist_nonneg: "sq_dist x m = Inr d \<Longrightarrow> v \<in> set (data d) \<Longrightarrow> 0 \<le> v"
  by (auto simp: sq_dist_def tensor_map_def split: sum.splits)

lemma make_gauss_values:
  assumes "make_gauss means sz sigma False = Inr g"
  shows "\<forall>x\<in>set (data g). 0 \<le> x \<and> x \<le> 1"
proof -
  let ?dr = "map (\<lambda>j. - 1 - int j) [0..<length sz]"
  from assms obtain coords_list mean_list dists ks factors where
    ds: "sequence_err (map (\<lambda>(x, mean). sq_dist x mean) (zip coords_list mean_list)) = Inr dists"
    and ks: "gauss_ks sz sigma = Inr ks"
    and fs: "sequence_err
             (map (\<lambda>(d, dist). fold_err unsqueeze (filter (\<lambda>d'. d' \<noteq> d) ?dr) dist)
                  (zip ?dr (map (\<lambda>(k, dist). tensor_map exp (tensor_map (\<lambda>v. v * k) dist))
                     (zip ks dists)))) = Inr factors"
    and g: "reduce_mul factors = Inr g"
    by (auto simp: make_gauss_def Let_def split: sum.splits)
  have "unit_values u" if u: "u \<in> set factors" for u
  proof -
    from sequence_err_map_elem [OF fs u] obtain d e where
      e: "e \<in> set (map (\<lambda>(k, dist). tensor_map exp (tensor_map (\<lambda>v. v * k) dist)) (zip ks dists))"
      and f: "fold_err unsqueeze (filter (\<lambda>d'. d' \<noteq> d) ?dr) e = Inr u"
      by (auto dest: set_zip_rightD)
    from e obtain k dist where k: "k \<in> set ks" and dist: "dist \<in> set dists"
      and e': "e = tensor_map exp (tensor_map (\<lambda>v. v * k) dist)"
      by (auto dest: set_zip_leftD set_zip_rightD)
    from sequence_err_map_elem [OF ds dist] obtain x m where sq: "sq_dist x m = Inr dist"
      by auto
    have "0 \<le> y \<and> y \<le> 1" if "y \<in> set (data e)" for y
    proof -
      from that obtain v where v: "v \<in> set (data dist)" and y: "y = exp (v * k)"
        by (auto simp: e' tensor_map_def)
      from sq_dist_nonneg [OF sq v] gauss_ks_nonpos [OF ks k] have "v * k \<le> 0"
        by (simp add: mult_nonneg_nonpos)
      then show ?thesis by (simp add: y)
    qed
    then show ?thesis
      by (simp add: unit_values_def fold_unsqueeze_data [OF f])
  qed
  with unit_values_reduce_mul [OF _ g] show ?thesis by (simp add: unit_values_def)
qed

lemma exp_eighth_less_one: "exp (- (1 / 8)) < (1::real)"
  by simp

theorem make_gauss_max_counterexample:
  "make_gauss (Tensor [1] [0]) [2] 1 False =
     Inr (Tensor [2] [exp (- (1 / 8)), exp (- (1 / 8))]) \<and>
   Max (set [exp (- (1 / 8)), exp (- (1 / 8))]) < (1::real)"
  by (simp add: eval_defs power2_eq_square numeral_2_eq_2)


subsection \<open>Samples behind several batch axes\<close>

lemma chunks_one: "length xs = m \<Longrightarrow> chunks m (Suc 0) xs = [xs]"
  by (simp add: chunks_def)

lemma chunks_chunks:
  "length xs = b * (k * m) \<Longrightarrow>
   concat (map (chunks m k) (chunks (k * m) b xs)) = chunks m (b * k) xs"
proof (induction b arbitrary: xs)
  case 0
  then show ?case by simp
next
  case (Suc b)
  have l: "length (take (k * m) xs) = k * m" using Suc.prems by simp
  have "chunks m (k + b * k) (take (k * m) xs @ drop (k * m) xs) =
      chunks m k (take (k * m) xs) @ chunks m (b * k) (drop (k * m) xs)"
    by (rule chunks_add [OF l])
  moreover have "length (drop (k * m) xs) = b * (k * m)" using Suc.prems by simp
  ultimately show ?case
    using Suc.IH [of "drop (k * m) xs"] by (simp add: chunks_Suc)
qed

lemma concat_map_concat:
  "concat (map (\<lambda>c. concat (map f (g c))) cs) = concat (map f (concat (map g cs)))"
  by (induction cs) simp_all


lemma expand_data_prefix:
  "length xs = prod_list batch * prod_list s \<Longrightarrow>
   expand_data (batch @ s) (batch @ r) xs =
     concat (map (expand_data s r) (chunks (prod_list s) (prod_list batch) xs))"
proof (induction batch arbitrary: xs)
  case Nil
  then show ?case by (simp add: chunks_one)
next
  case (Cons b bs)
  let ?m = "prod_list s"
  let ?k = "prod_list bs"
  from Cons.prems have l: "length xs = b * (?k * ?m)" by simp
  have "expand_data (bs @ s) (bs @ r) c = concat (map (expand_data s r) (chunks ?m ?k c))"
    if "c \<in> set (chunks (?k * ?m) b xs)" for c
    using chunks_lengths [OF l that] by (intro Cons.IH) simp
  then have m: "map (expand_data (bs @ s) (bs @ r)) (chunks (?k * ?m) b xs) =
      map (\<lambda>c. concat (map (expand_data s r) (chunks ?m ?k c))) (chunks (?k * ?m) b xs)"
    by simp
  have "expand_data ((b # bs) @ s) ((b # bs) @ r) xs =
      concat (map (expand_data (bs @ s) (bs @ r)) (chunks (?k * ?m) b xs))"
    by simp
  also have "\<dots> =
      concat (map (\<lambda>c. concat (map (expand_data s r) (chunks ?m ?k c))) (chunks (?k * ?m) b xs))"
    unfolding m ..
  also have "\<dots> = concat (map (expand_data s r) (chunks ?m (b * ?k) xs))"
    unfolding concat_map_concat chunks_chunks [OF l] ..
  finally show ?case by simp
qed

lemma expand_data_ones: "expand_data (replicate (length r) 1) r [z] = replicate (prod_list r) z"
proof (induction r)
  case Nil
  then show ?case by simp
next
  case (Cons n r)
  show ?case
  proof (cases "n = 1")
    case True
    with Cons show ?thesis by (simp add: chunks_one)
  next
    case False
    with Cons show ?thesis by (simp add: concat_replicate_replicate)
  qed
qed



subsection \<open>The normalization of the Gaussian\<close>








lemma chunks_singletons: "length zs = n \<Longrightarrow> chunks (Suc 0) n zs = map (\<lambda>z. [z]) zs"
proof (induction zs arbitrary: n)
  case Nil
  then show ?case by simp
next
  case (Cons z zs)
  then obtain k where "n = Suc k" by (cases n) auto
  with Cons show ?case by (simp add: chunks_Suc)
qed

lemma prod_list_replicate_one: "prod_list (replicate n 1) = Suc 0"
  by (induction n) simp_all

lemma expand_sums:
  assumes "length zs = prod_list batch"
  shows "expand_data (batch @ replicate (length s) 1) (batch @ s) zs =
     concat (map (\<lambda>z. replicate (prod_list s) z) zs)"
proof -
  have "expand_data (batch @ replicate (length s) 1) (batch @ s) zs =
      concat (map (expand_data (replicate (length s) 1) s)
                (chunks (prod_list (replicate (length s) 1)) (prod_list batch) zs))"
    by (rule expand_data_prefix) (simp add: assms)
  also have "\<dots> = concat (map (\<lambda>z. replicate (prod_list s) z) zs)"
    unfolding prod_list_replicate_one chunks_singletons [OF assms] map_map comp_def
      expand_data_ones ..
  finally show ?thesis .
qed



subsection \<open>Shapes and sizes under broadcasting\<close>

lemma length_expand_data:
  "list_all2 (\<lambda>m n. m = n \<or> m = 1) s r \<Longrightarrow> length xs = prod_list s \<Longrightarrow>
   length (expand_data s r xs) = prod_list r"
proof (induction s r arbitrary: xs rule: list_all2_induct)
  case Nil
  then show ?case by simp
next
  case (Cons m s n r)
  show ?case
  proof (cases "m = n")
    case True
    from Cons.prems have l: "length xs = m * prod_list s" by simp
    have "\<forall>c\<in>set (map (expand_data s r) (chunks (prod_list s) m xs)). length c = prod_list r"
      using Cons.IH chunks_lengths [OF l] by auto
    from length_concat_rows [OF this] True show ?thesis by simp
  next
    case False
    with Cons.hyps have m: "m = 1" by simp
    with Cons.prems have "length (expand_data s r xs) = prod_list r"
      by (intro Cons.IH) simp
    with False show ?thesis by (simp add: length_concat sum_list_replicate)
  qed
qed

lemma broadcast_rev_compat:
  "broadcast_rev xs ys = Inr zs \<Longrightarrow>
   length zs = max (length xs) (length ys) \<and>
   list_all2 (\<lambda>m n. m = n \<or> m = 1) (xs @ replicate (length zs - length xs) 1) zs \<and>
   list_all2 (\<lambda>m n. m = n \<or> m = 1) (ys @ replicate (length zs - length ys) 1) zs"
proof (induction xs ys arbitrary: zs rule: broadcast_rev.induct)
  case (1 ys)
  then show ?case by (auto simp: list_all2_conv_all_nth nth_append)
next
  case (2 x xs)
  then show ?case by (auto simp: list_all2_conv_all_nth nth_append)
next
  case (3 x xs y ys)
  from "3.prems" obtain zs' where c: "x = y \<or> y = 1 \<or> x = 1"
    and r: "broadcast_rev xs ys = Inr zs'" and zs: "zs = (if x = 1 then y else x) # zs'"
    by (auto split: if_splits sum.splits)
  from "3.IH" [OF c r] c show ?case unfolding zs by auto
qed

lemma broadcast_shapes_compat:
  assumes "broadcast_shapes a b = Inr r"
  shows "list_all2 (\<lambda>m n. m = n \<or> m = 1) (replicate (length r - length a) 1 @ a) r"
    and "list_all2 (\<lambda>m n. m = n \<or> m = 1) (replicate (length r - length b) 1 @ b) r"
proof -
  from assms obtain zs where z: "broadcast_rev (rev a) (rev b) = Inr zs" and r: "r = rev zs"
    by (auto simp: broadcast_shapes_def split: sum.splits)
  from broadcast_rev_compat [OF z, unfolded length_rev]
  have 1: "list_all2 (\<lambda>m n. m = n \<or> m = 1) (rev a @ replicate (length zs - length a) 1) zs"
    and 2: "list_all2 (\<lambda>m n. m = n \<or> m = 1) (rev b @ replicate (length zs - length b) 1) zs"
    by blast+
  from 1 have "list_all2 (\<lambda>m n. m = n \<or> m = 1)
      (rev (rev a @ replicate (length zs - length a) 1)) (rev zs)"
    by (simp only: list_all2_rev)
  then show "list_all2 (\<lambda>m n. m = n \<or> m = 1) (replicate (length r - length a) 1 @ a) r"
    by (simp add: r)
  from 2 have "list_all2 (\<lambda>m n. m = n \<or> m = 1)
      (rev (rev b @ replicate (length zs - length b) 1)) (rev zs)"
    by (simp only: list_all2_rev)
  then show "list_all2 (\<lambda>m n. m = n \<or> m = 1) (replicate (length r - length b) 1 @ b) r"
    by (simp add: r)
qed

lemma length_expand_to:
  assumes "wf_tensor t" "list_all2 (\<lambda>m n. m = n \<or> m = 1) (replicate (length r - length (shape t)) 1 @ shape t) r"
  shows "length (expand_to r t) = prod_list r"
  unfolding expand_to_def
  by (rule length_expand_data [OF assms(2)]) (use assms(1) in \<open>simp add: wf_tensor_def\<close>)

text \<open>An operation on well-formed tensors gives a well-formed tensor.\<close>

lemma wf_broadcast_op:
  assumes "wf_tensor a" "wf_tensor b" "broadcast_op f a b = Inr c"
  shows "wf_tensor c"
proof -
  from assms(3) obtain r where r: "broadcast_shapes (shape a) (shape b) = Inr r"
    and c: "c = Tensor r (map2 f (expand_to r a) (expand_to r b))"
    by (auto simp: broadcast_op_def split: sum.splits)
  from broadcast_shapes_compat [OF r] assms(1,2)
  have "length (expand_to r a) = prod_list r" "length (expand_to r b) = prod_list r"
    by (simp_all add: length_expand_to)
  then show ?thesis by (simp add: c wf_tensor_def)
qed

lemma broadcast_rev_zip:
  "length xs = length ys \<Longrightarrow> \<forall>(x, y)\<in>set (zip xs ys). x = y \<or> y = 1 \<or> x = 1 \<Longrightarrow>
   broadcast_rev xs ys = Inr (map2 (\<lambda>x y. if x = 1 then y else x) xs ys)"
  by (induction xs ys rule: list_induct2) auto

lemma broadcast_shapes_zip:
  assumes "length a = length b" "\<forall>(x, y)\<in>set (zip a b). x = y \<or> y = 1 \<or> x = 1"
  shows "broadcast_shapes a b = Inr (map2 (\<lambda>x y. if x = 1 then y else x) a b)"
proof -
  have "broadcast_rev (rev a) (rev b) = Inr (map2 (\<lambda>x y. if x = 1 then y else x) (rev a) (rev b))"
    using assms by (intro broadcast_rev_zip) (simp_all add: zip_rev)
  then show ?thesis
    using assms(1) by (simp add: broadcast_shapes_def zip_rev rev_map)
qed

subsection \<open>The shape of the Gaussian\<close>

lemma sequence_err_nth:
  "\<forall>i<length xs. \<exists>y. f (xs ! i) = Inr y \<and> P i y \<Longrightarrow>
   \<exists>ys. sequence_err (map f xs) = Inr ys \<and> length ys = length xs \<and> (\<forall>i<length xs. P i (ys ! i))"
proof (induction xs arbitrary: P)
  case Nil
  then show ?case by simp
next
  case (Cons x xs)
  from Cons.prems obtain y where y: "f x = Inr y" "P 0 y" by fastforce
  from Cons.prems have "\<forall>i<length xs. \<exists>y. f (xs ! i) = Inr y \<and> P (Suc i) y" by fastforce
  from Cons.IH [OF this] obtain ys where ys: "sequence_err (map f xs) = Inr ys"
    "length ys = length xs" "\<forall>i<length xs. P (Suc i) (ys ! i)" by blast
  have "\<forall>i<length (x # xs). P i ((y # ys) ! i)"
    using y(2) ys(3) by (auto simp: nth_Cons split: nat.splits)
  with y(1) ys(1,2) show ?case by (intro exI [of _ "y # ys"]) simp
qed

lemma fold_err_append:
  "fold_err f (xs @ ys) acc =
     (case fold_err f xs acc of Inl e \<Rightarrow> Inl e | Inr acc' \<Rightarrow> fold_err f ys acc')"
  by (induction xs arbitrary: acc) (simp_all split: sum.splits)

lemma unsqueeze_at:
  "k \<le> length s \<Longrightarrow>
   unsqueeze (int k - int (Suc (length s))) (Tensor s xs) =
     Inr (Tensor (take k s @ 1 # drop k s) xs)"
  by (simp add: unsqueeze_def wrap_dim_def)

lemma unsqueeze_inner:
  "fold_err unsqueeze (map (\<lambda>j. - 1 - int j) [0..<j]) (Tensor (batch @ [L]) xs) =
     Inr (Tensor (batch @ [L] @ replicate j 1) xs)"
proof (induction j)
  case 0
  then show ?case by simp
next
  case (Suc j)
  let ?s = "batch @ [L] @ replicate j 1"
  have "- 1 - int j = int (Suc (length batch)) - int (Suc (length ?s))" by simp
  then have "unsqueeze (- 1 - int j) (Tensor ?s xs) =
      Inr (Tensor (take (Suc (length batch)) ?s @ 1 # drop (Suc (length batch)) ?s) xs)"
    using unsqueeze_at [of "Suc (length batch)" ?s xs] by simp
  then have "unsqueeze (- 1 - int j) (Tensor ?s xs) = Inr (Tensor (batch @ [L] @ replicate (Suc j) 1) xs)"
    by simp
  with Suc show ?case by (simp add: fold_err_append)
qed

lemma unsqueeze_outer:
  "fold_err unsqueeze (map (\<lambda>j. - 1 - int j) [Suc j..<Suc j + m])
     (Tensor (batch @ [L] @ replicate j 1) xs) =
     Inr (Tensor (batch @ replicate m 1 @ [L] @ replicate j 1) xs)"
proof (induction m)
  case 0
  then show ?case by simp
next
  case (Suc m)
  let ?s = "batch @ replicate m 1 @ [L] @ replicate j 1"
  have "unsqueeze (- 1 - int (Suc j + m)) (Tensor ?s xs) =
      Inr (Tensor (batch @ replicate (Suc m) 1 @ [L] @ replicate j 1) xs)"
    by (simp add: unsqueeze_def wrap_dim_def)
  with Suc show ?case by (simp add: fold_err_append)
qed

lemma filter_dim_range:
  assumes "j < n"
  shows "filter (\<lambda>d'. d' \<noteq> - 1 - int j) (map (\<lambda>j. - 1 - int j) [0..<n]) =
     map (\<lambda>j. - 1 - int j) [0..<j] @ map (\<lambda>j. - 1 - int j) [Suc j..<Suc j + (n - 1 - j)]"
proof -
  have "[0..<j + (n - j)] = [0..<j] @ [j..<j + (n - j)]"
    by (rule upt_add_eq_append) simp
  with assms have "[0..<n] = [0..<j] @ j # [Suc j..<n]"
    by (simp add: upt_conv_Cons)
  moreover have "Suc j + (n - 1 - j) = n" using assms by simp
  ultimately show ?thesis
    by (simp add: filter_map comp_def filter_id_conv)
qed

lemma unsqueeze_factor:
  assumes "j < n"
  shows "fold_err unsqueeze (filter (\<lambda>d'. d' \<noteq> - 1 - int j) (map (\<lambda>j. - 1 - int j) [0..<n]))
      (Tensor (batch @ [L]) xs) =
     Inr (Tensor (batch @ replicate (n - 1 - j) 1 @ [L] @ replicate j 1) xs)"
  unfolding filter_dim_range [OF assms] fold_err_append unsqueeze_inner sum.case
  by (rule unsqueeze_outer)

lemma map2_keep_same: "map2 (\<lambda>x y. if x = 1 then y else x) xs xs = (xs :: nat list)"
  by (induction xs) simp_all

lemma map2_keep_ones:
  "length T = m \<Longrightarrow> map2 (\<lambda>x y. if x = 1 then y else x) T (replicate m 1) = (T :: nat list)"
  by (induction T arbitrary: m) auto

lemma broadcast_shapes_step:
  assumes "length T = m"
  shows "broadcast_shapes (batch @ replicate a 1 @ [1] @ T)
           (batch @ replicate a 1 @ [L] @ replicate m 1) =
         Inr (batch @ replicate a 1 @ [L] @ T)"
proof -
  let ?A = "batch @ replicate a 1 @ [1] @ T"
  let ?B = "batch @ replicate a 1 @ [L] @ replicate m 1"
  have z: "zip ?A ?B = zip batch batch @ zip (replicate a 1) (replicate a 1) @ [(1, L)] @
      zip T (replicate m 1)"
    by (simp add: assms)
  have "\<forall>(x, y)\<in>set (zip ?A ?B). x = y \<or> y = 1 \<or> x = 1"
    unfolding z by (auto simp: set_zip)
  then have "broadcast_shapes ?A ?B = Inr (map2 (\<lambda>x y. if x = 1 then y else x) ?A ?B)"
    by (intro broadcast_shapes_zip) (simp add: assms)
  also have "map2 (\<lambda>x y. if x = 1 then y else x) ?A ?B = batch @ replicate a 1 @ [L] @ T"
    unfolding z by (simp add: map2_keep_same map2_keep_ones [OF assms] del: One_nat_def)
  finally show ?thesis .
qed

text \<open>The product of the factors, one for each axis, has the axes of all of them.\<close>

lemma reduce_mul_shape:
  assumes n: "length fs = length Ls" and ne: "Ls \<noteq> []"
    and f: "\<forall>j<length Ls. wf_tensor (fs ! j) \<and>
              shape (fs ! j) = batch @ replicate (length Ls - 1 - j) 1 @ [Ls ! j] @ replicate j 1"
  shows "\<exists>u. reduce_mul fs = Inr u \<and> wf_tensor u \<and> shape u = batch @ rev Ls"
proof -
  let ?n = "length Ls"
  let ?mul = "\<lambda>u acc. broadcast_op (*) acc u"
  from n ne obtain f0 rest where fs: "fs = f0 # rest" by (cases fs) auto
  have aux: "\<exists>acc. fold_err ?mul (take k rest) f0 = Inr acc \<and> wf_tensor acc \<and>
        shape acc = batch @ replicate (?n - 1 - k) 1 @ rev (take (Suc k) Ls)"
    if "k < ?n" for k
    using that
  proof (induction k)
    case 0
    from ne have "take (Suc 0) Ls = [Ls ! 0]" by (cases Ls) simp_all
    with f ne show ?case by (auto simp: fs)
  next
    case (Suc k)
    then have k: "k < ?n" by simp
    from Suc.IH [OF k] obtain acc where acc: "fold_err ?mul (take k rest) f0 = Inr acc"
      and wa: "wf_tensor acc"
      and sa: "shape acc = batch @ replicate (?n - 1 - k) 1 @ rev (take (Suc k) Ls)"
      by blast
    from Suc.prems n have kr: "k < length rest" by (simp add: fs)
    then have tk: "take (Suc k) rest = take k rest @ [rest ! k]"
      by (rule take_Suc_conv_app_nth)
    from f Suc.prems have wf: "wf_tensor (rest ! k)"
      and sf: "shape (rest ! k) = batch @ replicate (?n - 1 - Suc k) 1 @ [Ls ! Suc k] @
          replicate (Suc k) 1"
      by (auto simp: fs dest!: spec [of _ "Suc k"])
    from Suc.prems have r: "replicate (?n - 1 - k) (1::nat) = replicate (?n - 1 - Suc k) 1 @ [1]"
      by (metis Suc_diff_Suc diff_diff_left plus_1_eq_Suc replicate_Suc replicate_append_same
          less_diff_conv add.commute)
    have lt: "length (rev (take (Suc k) Ls)) = Suc k" using k by simp
    have bs: "broadcast_shapes (shape acc) (shape (rest ! k)) =
        Inr (batch @ replicate (?n - 1 - Suc k) 1 @ [Ls ! Suc k] @ rev (take (Suc k) Ls))"
      unfolding sa sf r using broadcast_shapes_step [OF lt, of batch "?n - 1 - Suc k" "Ls ! Suc k"]
      by simp
    then obtain acc' where acc': "broadcast_op (*) acc (rest ! k) = Inr acc'"
      and sh': "shape acc' = batch @ replicate (?n - 1 - Suc k) 1 @ [Ls ! Suc k] @
          rev (take (Suc k) Ls)"
      by (simp add: broadcast_op_def)
    have "rev (take (Suc (Suc k)) Ls) = Ls ! Suc k # rev (take (Suc k) Ls)"
      using Suc.prems by (simp add: take_Suc_conv_app_nth)
    with acc acc' sh' wf_broadcast_op [OF wa wf acc'] show ?case
      by (simp add: tk fold_err_append)
  qed
  have "take (?n - 1) rest = rest" using n by (simp add: fs)
  moreover have "take (Suc (?n - 1)) Ls = Ls" using ne by simp
  moreover have "?n - 1 < ?n" using ne by simp
  ultimately show ?thesis
    using aux [of "?n - 1"] by (simp add: reduce_mul_def fs)
qed

lemma broadcast_shapes_axis: "broadcast_shapes [L] (batch @ [1]) = Inr (batch @ [L])"
  by (simp add: broadcast_shapes_def split: sum.splits)

lemma wf_tensor_map [simp]: "wf_tensor (tensor_map f t) = wf_tensor t"
  by (simp add: wf_tensor_def tensor_map_def)

lemma shape_tensor_map [simp]: "shape (tensor_map f t) = shape t"
  by (simp add: tensor_map_def)

lemma sq_dist_shape:
  assumes "wf_tensor x" "shape x = [L]" "wf_tensor m" "shape m = batch @ [1]"
  shows "\<exists>d. sq_dist x m = Inr d \<and> wf_tensor d \<and> shape d = batch @ [L]"
proof -
  have "broadcast_shapes (shape x) (shape m) = Inr (batch @ [L])"
    unfolding assms(2,4) by (rule broadcast_shapes_axis)
  then obtain d where d: "broadcast_op (-) x m = Inr d" and s: "shape d = batch @ [L]"
    by (simp add: broadcast_op_def)
  from wf_broadcast_op [OF assms(1,3) d] d s show ?thesis
    by (simp add: sq_dist_def)
qed

lemma gauss_ks_total:
  assumes "sigma \<noteq> 0" "\<forall>s\<in>set sz. s \<noteq> 0"
  shows "gauss_ks sz sigma =
     Inr (map (\<lambda>s. - 0.5 * (1 / (2 * sigma / real_of_int s)) ^ 2) (rev sz))"
proof -
  have "map (\<lambda>s. py_div (2 * sigma) (real_of_int s)) (rev sz) =
      map (\<lambda>s. Inr (2 * sigma / real_of_int s)) (rev sz)"
    using assms(2) by (intro map_cong) (simp_all add: py_div_def)
  then have s: "sequence_err (map (\<lambda>s. py_div (2 * sigma) (real_of_int s)) (rev sz)) =
      Inr (map (\<lambda>s. 2 * sigma / real_of_int s) (rev sz))"
    by (simp only: sequence_err_map_Inr)
  have "map (\<lambda>stddev. case py_div 1 stddev of Inl e \<Rightarrow> Inl e | Inr r \<Rightarrow> Inr (- 0.5 * r ^ 2))
        (map (\<lambda>s. 2 * sigma / real_of_int s) (rev sz)) =
      map (\<lambda>s. Inr (- 0.5 * (1 / (2 * sigma / real_of_int s)) ^ 2)) (rev sz)"
    using assms by (simp add: py_div_def)
  then have k: "sequence_err
        (map (\<lambda>stddev. case py_div 1 stddev of Inl e \<Rightarrow> Inl e | Inr r \<Rightarrow> Inr (- 0.5 * r ^ 2))
          (map (\<lambda>s. 2 * sigma / real_of_int s) (rev sz))) =
      Inr (map (\<lambda>s. - 0.5 * (1 / (2 * sigma / real_of_int s)) ^ 2) (rev sz))"
    by (simp only: sequence_err_map_Inr)
  show ?thesis
    unfolding gauss_ks_def s sum.case k ..
qed

lemma split_last_shape:
  assumes "wf_tensor means" "shape means = batch @ [n]" "0 < n"
  shows "\<exists>ml. split_last means = Inr ml \<and> length ml = n \<and>
           (\<forall>j<n. wf_tensor (ml ! j) \<and> shape (ml ! j) = batch @ [1])"
  using assms by (simp add: split_last_def wf_tensor_def)

text \<open>
  For means of shape \<open>batch @ [n]\<close>, a grid of \<open>n \<ge> 1\<close> sizes of at least 1 and a sigma
  other than 0, the unnormalized Gaussian exists and has the shape \<open>batch @ size\<close>.
\<close>

lemma make_gauss_shape:
  assumes wf: "wf_tensor means" and sh: "shape means = batch @ [length sz]" and ne: "sz \<noteq> []"
    and pos: "\<forall>s\<in>set sz. 1 \<le> s" and sg: "sigma \<noteq> 0"
  shows "\<exists>u. make_gauss means sz sigma False = Inr u \<and> wf_tensor u \<and>
           shape u = batch @ map nat sz"
proof -
  let ?n = "length sz"
  let ?Ls = "map nat (rev sz)"
  let ?dr = "map (\<lambda>j. - 1 - int j) [0..<?n]"
  from ne have n: "0 < ?n" by simp
  have "\<forall>i<length (rev sz). \<exists>y. normalized_linspace (rev sz ! i) = Inr y \<and>
      (wf_tensor y \<and> shape y = [?Ls ! i])"
  proof (intro allI impI)
    fix i assume i: "i < length (rev sz)"
    then have "rev sz ! i \<in> set sz" by (metis nth_mem set_rev)
    with pos have "1 \<le> rev sz ! i" by blast
    from normalized_linspace_closed [OF this] i
    show "\<exists>y. normalized_linspace (rev sz ! i) = Inr y \<and> (wf_tensor y \<and> shape y = [?Ls ! i])"
      by (simp add: wf_tensor_def)
  qed
  from sequence_err_nth [OF this] obtain coords where
    c: "sequence_err (map normalized_linspace (rev sz)) = Inr coords"
    and lc: "length coords = ?n"
    and pc: "\<forall>i<?n. wf_tensor (coords ! i) \<and> shape (coords ! i) = [?Ls ! i]"
    by auto
  from split_last_shape [OF wf sh n] obtain ml where
    m: "split_last means = Inr ml" and lm: "length ml = ?n"
    and pm: "\<forall>j<?n. wf_tensor (ml ! j) \<and> shape (ml ! j) = batch @ [1]"
    by blast
  have "\<forall>i<length (zip coords ml). \<exists>y. (\<lambda>(x, mean). sq_dist x mean) (zip coords ml ! i) = Inr y \<and>
      (wf_tensor y \<and> shape y = batch @ [?Ls ! i])"
    using pc pm lc lm by (auto intro!: sq_dist_shape)
  from sequence_err_nth [OF this] obtain dists where
    d: "sequence_err (map (\<lambda>(x, mean). sq_dist x mean) (zip coords ml)) = Inr dists"
    and ld: "length dists = ?n"
    and pd: "\<forall>i<?n. wf_tensor (dists ! i) \<and> shape (dists ! i) = batch @ [?Ls ! i]"
    using lc lm by auto
  from pos have "\<forall>s\<in>set sz. s \<noteq> 0" by auto
  from gauss_ks_total [OF sg this] obtain ks where
    k: "gauss_ks sz sigma = Inr ks" and lk: "length ks = ?n"
    by simp
  let ?exps = "map (\<lambda>(k, dist). tensor_map exp (tensor_map (\<lambda>v. v * k) dist)) (zip ks dists)"
  have le: "length (zip ?dr ?exps) = ?n" using lk ld by simp
  have "\<forall>i<length (zip ?dr ?exps).
      \<exists>y. (\<lambda>(d, dist). fold_err unsqueeze (filter (\<lambda>d'. d' \<noteq> d) ?dr) dist) (zip ?dr ?exps ! i) = Inr y \<and>
        (wf_tensor y \<and>
         shape y = batch @ replicate (length ?Ls - 1 - i) 1 @ [?Ls ! i] @ replicate i 1)"
  proof (intro allI impI)
    fix i assume "i < length (zip ?dr ?exps)"
    then have i: "i < ?n" using le by simp
    let ?e = "tensor_map exp (tensor_map (\<lambda>v. v * ks ! i) (dists ! i))"
    from i pd have we: "wf_tensor ?e" and se: "shape ?e = batch @ [?Ls ! i]" by simp_all
    have z: "zip ?dr ?exps ! i = (- 1 - int i, ?e)" using i lk ld by simp
    have "?e = Tensor (batch @ [?Ls ! i]) (data ?e)"
      using se by (metis tensor.collapse)
    then have "fold_err unsqueeze (filter (\<lambda>d'. d' \<noteq> - 1 - int i) ?dr) ?e =
        Inr (Tensor (batch @ replicate (?n - 1 - i) 1 @ [?Ls ! i] @ replicate i 1) (data ?e))"
      using unsqueeze_factor [OF i, of batch "?Ls ! i" "data ?e"] by simp
    moreover have "wf_tensor (Tensor (batch @ replicate (?n - 1 - i) 1 @ [?Ls ! i] @ replicate i 1)
        (data ?e))"
      using we se by (simp add: wf_tensor_def)
    ultimately show "\<exists>y. (\<lambda>(d, dist). fold_err unsqueeze (filter (\<lambda>d'. d' \<noteq> d) ?dr) dist)
          (zip ?dr ?exps ! i) = Inr y \<and>
        (wf_tensor y \<and>
         shape y = batch @ replicate (length ?Ls - 1 - i) 1 @ [?Ls ! i] @ replicate i 1)"
      unfolding z by simp
  qed
  from sequence_err_nth [OF this] obtain fs where
    f: "sequence_err (map (\<lambda>(d, dist). fold_err unsqueeze (filter (\<lambda>d'. d' \<noteq> d) ?dr) dist)
          (zip ?dr ?exps)) = Inr fs"
    and lf: "length fs = length ?Ls"
    and pf: "\<forall>j<length ?Ls. wf_tensor (fs ! j) \<and>
        shape (fs ! j) = batch @ replicate (length ?Ls - 1 - j) 1 @ [?Ls ! j] @ replicate j 1"
    using le lk ld by auto
  from ne have "?Ls \<noteq> []" by simp
  from reduce_mul_shape [OF lf this pf] obtain u where
    u: "reduce_mul fs = Inr u" and wu: "wf_tensor u" and su: "shape u = batch @ rev ?Ls"
    by blast
  have "make_gauss means sz sigma False = Inr u"
    unfolding make_gauss_def Let_def c sum.case m d k f u by simp
  with wu su show ?thesis by (simp add: rev_map)
qed

subsection \<open>The cell a broadcast reads\<close>

lemma length_clip_index: "length c = length s \<Longrightarrow> length (clip_index s c) = length s"
  by (induction s c rule: clip_index.induct) simp_all

lemma clip_index_nth:
  "length c = length s \<Longrightarrow> i < length s \<Longrightarrow>
   clip_index s c ! i = (if s ! i = 1 then 0 else c ! i)"
proof (induction s c arbitrary: i rule: clip_index.induct)
  case (1 m s j c)
  then show ?case by (cases i) simp_all
qed simp_all

lemma clip_index_valid:
  "list_all2 (\<lambda>m n. m = n \<or> m = 1) s r \<Longrightarrow> valid_cell r c \<Longrightarrow> valid_cell s (clip_index s c)"
proof (induction s r arbitrary: c rule: list_all2_induct)
  case Nil
  then show ?case by (simp add: valid_cell_def)
next
  case (Cons m s n r)
  from Cons.prems obtain i c' where c: "c = i # c'" and i: "i < n" and v: "valid_cell r c'"
    by (cases c) (auto simp: valid_cell_def)
  from Cons.IH [OF v] Cons.hyps(1) i show ?case
    unfolding c by (auto simp: valid_cell_Cons)
qed

lemma clip_index_id: "valid_cell s c \<Longrightarrow> clip_index s c = c"
proof (induction s c rule: clip_index.induct)
  case (1 m s i c)
  then show ?case by (auto simp: valid_cell_Cons)
qed (auto simp: valid_cell_def)

lemma clip_index_clip:
  "list_all2 (\<lambda>m n. m = n \<or> m = 1) s r \<Longrightarrow> length c = length r \<Longrightarrow>
   clip_index s (clip_index r c) = clip_index s c"
proof (induction s r arbitrary: c rule: list_all2_induct)
  case Nil
  then show ?case by simp
next
  case (Cons m s n r)
  from Cons.prems obtain i c' where c: "c = i # c'" and l: "length c' = length r"
    by (cases c) auto
  from Cons.IH [OF l] Cons.hyps(1) show ?case unfolding c by auto
qed

lemma chunks_nth_nth:
  "p < n \<Longrightarrow> q < m \<Longrightarrow> length xs = n * m \<Longrightarrow> chunks m n xs ! p ! q = xs ! (p * m + q)"
proof -
  assume p: "p < n" and q: "q < m" and l: "length xs = n * m"
  have "p * m \<le> n * m" using p by (intro mult_le_mono1) simp
  then have "p * m \<le> length xs" using l by simp
  with p q show ?thesis by (simp add: chunks_def)
qed

lemma expand_data_nth:
  "list_all2 (\<lambda>m n. m = n \<or> m = 1) s r \<Longrightarrow> length xs = prod_list s \<Longrightarrow> valid_cell r c \<Longrightarrow>
   expand_data s r xs ! flat_index r c = xs ! flat_index s (clip_index s c)"
proof (induction s r arbitrary: xs c rule: list_all2_induct)
  case Nil
  then show ?case by (simp add: valid_cell_def)
next
  case (Cons m s n r)
  from Cons.prems(2) obtain i c' where c: "c = i # c'" and i: "i < n" and v: "valid_cell r c'"
    by (cases c) (auto simp: valid_cell_def)
  have q: "flat_index r c' < prod_list r" by (rule flat_index_less [OF v])
  have q': "flat_index s (clip_index s c') < prod_list s"
    by (rule flat_index_less [OF clip_index_valid [OF Cons.hyps(2) v]])
  show ?case
  proof (cases "m = n")
    case True
    let ?cs = "chunks (prod_list s) m xs"
    from Cons.prems(1) have l: "length xs = m * prod_list s" by simp
    from i True have mem: "?cs ! i \<in> set ?cs" by simp
    have rows: "\<forall>row\<in>set (map (expand_data s r) ?cs). length row = prod_list r"
      using chunks_lengths [OF l] length_expand_data [OF Cons.hyps(2)] by auto
    have "concat (map (expand_data s r) ?cs) ! (i * prod_list r + flat_index r c') =
        map (expand_data s r) ?cs ! i ! flat_index r c'"
      by (rule nth_concat_rows [OF rows]) (use i True q in simp_all)
    also have "\<dots> = expand_data s r (?cs ! i) ! flat_index r c'" using i True by simp
    also have "\<dots> = (?cs ! i) ! flat_index s (clip_index s c')"
      by (rule Cons.IH [OF chunks_lengths [OF l mem] v])
    also have "\<dots> = xs ! (i * prod_list s + flat_index s (clip_index s c'))"
      by (rule chunks_nth_nth) (use i True q' l in simp_all)
    finally show ?thesis using True i unfolding c by auto
  next
    case False
    with Cons.hyps(1) have m: "m = 1" by simp
    with Cons.prems(1) have l: "length xs = prod_list s" by simp
    have rows: "\<forall>row\<in>set (replicate n (expand_data s r xs)). length row = prod_list r"
      using length_expand_data [OF Cons.hyps(2) l] by simp
    have "concat (replicate n (expand_data s r xs)) ! (i * prod_list r + flat_index r c') =
        replicate n (expand_data s r xs) ! i ! flat_index r c'"
      by (rule nth_concat_rows [OF rows]) (use i q in simp_all)
    also have "\<dots> = expand_data s r xs ! flat_index r c'" using i by simp
    also have "\<dots> = xs ! flat_index s (clip_index s c')" by (rule Cons.IH [OF l v])
    finally show ?thesis using False m unfolding c by simp
  qed
qed

lemma block_index_less: "p < b \<Longrightarrow> q < m \<Longrightarrow> p * m + q < b * (m::nat)"
proof -
  assume p: "p < b" and q: "q < m"
  have "p * m + q < Suc p * m" using q by simp
  also have "\<dots> \<le> b * m" using p by (intro mult_le_mono1) simp
  finally show ?thesis .
qed

lemma compat_nth:
  "list_all2 (\<lambda>m n. m = n \<or> m = 1) r s \<Longrightarrow> i < length s \<Longrightarrow> r ! i = s ! i \<or> r ! i = (1::nat)"
  by (simp add: list_all2_conv_all_nth)

lemma compat_join:
  assumes a: "list_all2 (\<lambda>m n. m = n \<or> m = 1) ra (s :: nat list)"
    and b: "list_all2 (\<lambda>m n. m = n \<or> m = 1) rb s"
  shows "list_all2 (\<lambda>m n. m = n \<or> m = 1) (map2 (\<lambda>x y. if x = 1 then y else x) ra rb) s"
    and "list_all2 (\<lambda>m n. m = n \<or> m = 1) ra (map2 (\<lambda>x y. if x = 1 then y else x) ra rb)"
    and "list_all2 (\<lambda>m n. m = n \<or> m = 1) rb (map2 (\<lambda>x y. if x = 1 then y else x) ra rb)"
proof -
  from a b have la: "length ra = length s" and lb: "length rb = length s"
    by (simp_all add: list_all2_lengthD)
  have n: "(ra ! i = s ! i \<or> ra ! i = 1) \<and> (rb ! i = s ! i \<or> rb ! i = 1)" if "i < length s" for i
    using compat_nth [OF a that] compat_nth [OF b that] by simp
  show "list_all2 (\<lambda>m n. m = n \<or> m = 1) (map2 (\<lambda>x y. if x = 1 then y else x) ra rb) s"
  proof (rule list_all2_all_nthI)
    show "length (map2 (\<lambda>x y. if x = 1 then y else x) ra rb) = length s" using la lb by simp
  next
    fix i assume "i < length (map2 (\<lambda>x y. if x = 1 then y else x) ra rb)"
    then have i: "i < length s" using la lb by simp
    from n [OF i] i la lb
    show "map2 (\<lambda>x y. if x = 1 then y else x) ra rb ! i = s ! i \<or>
        map2 (\<lambda>x y. if x = 1 then y else x) ra rb ! i = 1"
      by auto
  qed
  show "list_all2 (\<lambda>m n. m = n \<or> m = 1) ra (map2 (\<lambda>x y. if x = 1 then y else x) ra rb)"
  proof (rule list_all2_all_nthI)
    show "length ra = length (map2 (\<lambda>x y. if x = 1 then y else x) ra rb)" using la lb by simp
  next
    fix i assume "i < length ra"
    then have i: "i < length s" using la by simp
    from n [OF i] i la lb
    show "ra ! i = map2 (\<lambda>x y. if x = 1 then y else x) ra rb ! i \<or> ra ! i = 1"
      by auto
  qed
  show "list_all2 (\<lambda>m n. m = n \<or> m = 1) rb (map2 (\<lambda>x y. if x = 1 then y else x) ra rb)"
  proof (rule list_all2_all_nthI)
    show "length rb = length (map2 (\<lambda>x y. if x = 1 then y else x) ra rb)" using la lb by simp
  next
    fix i assume "i < length rb"
    then have i: "i < length s" using lb by simp
    from n [OF i] i la lb
    show "rb ! i = map2 (\<lambda>x y. if x = 1 then y else x) ra rb ! i \<or> rb ! i = 1"
      by auto
  qed
qed

lemma broadcast_shapes_batch:
  assumes "list_all2 (\<lambda>m n. m = n \<or> m = 1) ra (s :: nat list)"
    and "list_all2 (\<lambda>m n. m = n \<or> m = 1) rb s"
  shows "broadcast_shapes (batch @ ra) (batch @ rb) =
     Inr (batch @ map2 (\<lambda>x y. if x = 1 then y else x) ra rb)"
proof -
  from assms have l: "length ra = length rb" by (simp add: list_all2_lengthD)
  have z: "zip (batch @ ra) (batch @ rb) = zip batch batch @ zip ra rb" by simp
  have "x = y \<or> y = 1 \<or> x = 1" if "(x, y) \<in> set (zip ra rb)" for x y
  proof -
    from that obtain i where i: "i < length ra" "i < length rb" and x: "x = ra ! i" and y: "y = rb ! i"
      by (auto simp: set_zip)
    from assms(1) i have i': "i < length s" by (simp add: list_all2_lengthD)
    from compat_nth [OF assms(1) i'] compat_nth [OF assms(2) i'] show ?thesis
      unfolding x y by auto
  qed
  then have "\<forall>(x, y)\<in>set (zip ra rb). x = y \<or> y = 1 \<or> x = 1" by auto
  then have "\<forall>(x, y)\<in>set (zip (batch @ ra) (batch @ rb)). x = y \<or> y = 1 \<or> x = 1"
    unfolding z by (auto simp: set_zip)
  then have "broadcast_shapes (batch @ ra) (batch @ rb) =
      Inr (map2 (\<lambda>x y. if x = 1 then y else x) (batch @ ra) (batch @ rb))"
    by (intro broadcast_shapes_zip) (simp add: l)
  then show ?thesis unfolding z by (simp add: map2_keep_same del: One_nat_def)
qed

lemma expand_to_sample:
  assumes wa: "wf_tensor a" and sa: "shape a = batch @ ra"
    and cp: "list_all2 (\<lambda>m n. m = n \<or> m = 1) ra rr"
    and p: "p < prod_list batch" and v: "valid_cell rr c"
  shows "expand_to (batch @ rr) a ! (p * prod_list rr + flat_index rr c) =
     chunks (prod_list ra) (prod_list batch) (data a) ! p ! flat_index ra (clip_index ra c)"
proof -
  let ?cs = "chunks (prod_list ra) (prod_list batch) (data a)"
  from cp have l: "length ra = length rr" by (simp add: list_all2_lengthD)
  from wa sa have len: "length (data a) = prod_list batch * prod_list ra"
    by (simp add: wf_tensor_def)
  from p have mem: "?cs ! p \<in> set ?cs" by simp
  have e: "expand_to (batch @ rr) a = concat (map (expand_data ra rr) ?cs)"
    using expand_data_prefix [OF len, of rr] by (simp add: expand_to_def sa l)
  have rows: "\<forall>row\<in>set (map (expand_data ra rr) ?cs). length row = prod_list rr"
    using chunks_lengths [OF len] length_expand_data [OF cp] by auto
  have "concat (map (expand_data ra rr) ?cs) ! (p * prod_list rr + flat_index rr c) =
      map (expand_data ra rr) ?cs ! p ! flat_index rr c"
    by (rule nth_concat_rows [OF rows]) (use p flat_index_less [OF v] in simp_all)
  also have "\<dots> = expand_data ra rr (?cs ! p) ! flat_index rr c" using p by simp
  also have "\<dots> = ?cs ! p ! flat_index ra (clip_index ra c)"
    by (rule expand_data_nth [OF cp chunks_lengths [OF len mem] v])
  finally show ?thesis unfolding e .
qed

lemma reads_one_mult:
  assumes a: "reads_one batch s p c a" and b: "reads_one batch s p c b"
    and p: "p < prod_list batch" and v: "valid_cell s c"
  shows "\<exists>t. broadcast_op (*) a b = Inr t \<and> reads_one batch s p c t"
proof -
  let ?R = "\<lambda>m n. m = n \<or> m = (1::nat)"
  let ?B = "prod_list batch"
  from a obtain ra where wa: "wf_tensor a" and sa: "shape a = batch @ ra"
    and ca: "list_all2 ?R ra s"
    and va: "chunks (prod_list ra) ?B (data a) ! p ! flat_index ra (clip_index ra c) = 1"
    by (auto simp: reads_one_def)
  from b obtain rb where wb: "wf_tensor b" and sb: "shape b = batch @ rb"
    and cb: "list_all2 ?R rb s"
    and vb: "chunks (prod_list rb) ?B (data b) ! p ! flat_index rb (clip_index rb c) = 1"
    by (auto simp: reads_one_def)
  let ?rr = "map2 (\<lambda>x y. if x = 1 then y else x) ra rb"
  let ?X = "expand_to (batch @ ?rr) a"
  let ?Y = "expand_to (batch @ ?rr) b"
  let ?t = "Tensor (batch @ ?rr) (map2 (*) ?X ?Y)"
  note cj = compat_join [OF ca cb]
  have bs: "broadcast_shapes (shape a) (shape b) = Inr (batch @ ?rr)"
    unfolding sa sb by (rule broadcast_shapes_batch [OF ca cb])
  then have t: "broadcast_op (*) a b = Inr ?t" by (simp add: broadcast_op_def)
  have wt: "wf_tensor ?t" by (rule wf_broadcast_op [OF wa wb t])
  then have lt: "length (map2 (*) ?X ?Y) = ?B * prod_list ?rr" by (simp add: wf_tensor_def)
  have lc: "length c = length ?rr"
    using valid_cell_length [OF v] list_all2_lengthD [OF cj(1)] by simp
  let ?c = "clip_index ?rr c"
  have vc: "valid_cell ?rr ?c" by (rule clip_index_valid [OF cj(1) v])
  let ?q = "flat_index ?rr ?c"
  have q: "?q < prod_list ?rr" by (rule flat_index_less [OF vc])
  have k: "p * prod_list ?rr + ?q < ?B * prod_list ?rr" by (rule block_index_less [OF p q])
  have X: "?X ! (p * prod_list ?rr + ?q) = 1"
    unfolding expand_to_sample [OF wa sa cj(2) p vc] clip_index_clip [OF cj(2) lc] by (rule va)
  have Y: "?Y ! (p * prod_list ?rr + ?q) = 1"
    unfolding expand_to_sample [OF wb sb cj(3) p vc] clip_index_clip [OF cj(3) lc] by (rule vb)
  have "chunks (prod_list ?rr) ?B (map2 (*) ?X ?Y) ! p ! ?q =
      map2 (*) ?X ?Y ! (p * prod_list ?rr + ?q)"
    by (rule chunks_nth_nth [OF p q lt])
  also have "\<dots> = ?X ! (p * prod_list ?rr + ?q) * ?Y ! (p * prod_list ?rr + ?q)"
    using k lt by simp
  also have "\<dots> = 1" unfolding X Y by simp
  finally have "chunks (prod_list ?rr) ?B (data ?t) ! p ! ?q = 1" by simp
  with wt cj(1) have "reads_one batch s p c ?t"
    unfolding reads_one_def by (intro conjI exI [of _ ?rr]) simp_all
  with t show ?thesis by blast
qed

lemma reads_one_fold:
  assumes p: "p < prod_list batch" and v: "valid_cell s c"
  shows "reads_one batch s p c acc \<Longrightarrow> \<forall>u\<in>set us. reads_one batch s p c u \<Longrightarrow>
     \<exists>g. fold_err (\<lambda>u acc. broadcast_op (*) acc u) us acc = Inr g \<and> reads_one batch s p c g"
proof (induction us arbitrary: acc)
  case Nil
  then show ?case by simp
next
  case (Cons u us)
  from Cons.prems have "reads_one batch s p c u" by simp
  from reads_one_mult [OF Cons.prems(1) this p v] obtain acc' where
    a: "broadcast_op (*) acc u = Inr acc'" and r: "reads_one batch s p c acc'" by blast
  from Cons.IH [OF r] Cons.prems(2) a show ?case by simp
qed

lemma reads_one_reduce_mul:
  assumes "p < prod_list batch" "valid_cell s c" "ts \<noteq> []" "\<forall>u\<in>set ts. reads_one batch s p c u"
  shows "\<exists>g. reduce_mul ts = Inr g \<and> reads_one batch s p c g"
proof -
  from assms(3) obtain t us where ts: "ts = t # us" by (cases ts) auto
  with assms(4) have "reads_one batch s p c t" "\<forall>u\<in>set us. reads_one batch s p c u" by simp_all
  from reads_one_fold [OF assms(1,2) this] show ?thesis by (simp add: reduce_mul_def ts)
qed

subsection \<open>The cells of the squared distances\<close>

lemma concat_replicate_concat:
  "concat (replicate b (concat (replicate k xs))) = concat (replicate (b * k) xs)"
  by (induction b) (simp_all add: replicate_add)

lemma expand_data_lead:
  "length xs = prod_list s \<Longrightarrow>
   expand_data (replicate (length batch) 1 @ s) (batch @ s) xs = concat (replicate (prod_list batch) xs)"
proof (induction batch)
  case Nil
  then show ?case by (simp add: expand_data_same)
next
  case (Cons b bs)
  have l: "length xs = prod_list (replicate (length bs) 1 @ s)"
    using Cons.prems by (simp add: prod_list_replicate_one)
  show ?case
  proof (cases "b = 1")
    case True
    with Cons.IH [OF Cons.prems] l show ?thesis by (simp add: chunks_one)
  next
    case False
    with Cons.IH [OF Cons.prems] show ?thesis by (simp add: concat_replicate_concat)
  qed
qed

lemma sq_dist_cell:
  assumes ax: "length ax = L" and col: "length col = prod_list batch"
    and p: "p < prod_list batch" and i: "i < L"
  shows "\<exists>d. sq_dist (Tensor [L] ax) (Tensor (batch @ [1]) col) = Inr d \<and> wf_tensor d \<and>
           shape d = batch @ [L] \<and> data d ! (p * L + i) = (ax ! i - col ! p) ^ 2"
proof -
  let ?B = "prod_list batch"
  let ?X = "expand_to (batch @ [L]) (Tensor [L] ax)"
  let ?Y = "expand_to (batch @ [L]) (Tensor (batch @ [1]) col)"
  have X: "?X = concat (replicate ?B ax)"
    using expand_data_lead [of ax "[L]" batch] ax by (simp add: expand_to_def)
  have Y: "?Y = concat (map (\<lambda>z. replicate L z) col)"
    using expand_sums [OF col, of "[L]"] by (simp add: expand_to_def)
  have k: "p * L + i < ?B * L" by (rule block_index_less [OF p i])
  have lX: "length ?X = ?B * L" unfolding X using ax by (simp add: length_concat sum_list_replicate)
  have "\<forall>r\<in>set (map (\<lambda>z. replicate L z) col). length r = L" by simp
  from length_concat_rows [OF this] have lY: "length ?Y = ?B * L" unfolding Y using col by simp
  have "concat (replicate ?B ax) ! (p * L + i) = replicate ?B ax ! p ! i"
    by (rule nth_concat_rows) (use ax p i in simp_all)
  then have Xn: "?X ! (p * L + i) = ax ! i" unfolding X using p by simp
  have "concat (map (\<lambda>z. replicate L z) col) ! (p * L + i) = map (\<lambda>z. replicate L z) col ! p ! i"
    by (rule nth_concat_rows) (use col p i in simp_all)
  then have Yn: "?Y ! (p * L + i) = col ! p" unfolding Y using p i col by simp
  let ?d = "tensor_map (\<lambda>v. v ^ 2) (Tensor (batch @ [L]) (map2 (-) ?X ?Y))"
  have "broadcast_shapes (shape (Tensor [L] ax)) (shape (Tensor (batch @ [1]) col)) =
      Inr (batch @ [L])"
    using broadcast_shapes_axis [of L batch] by simp
  then have d: "sq_dist (Tensor [L] ax) (Tensor (batch @ [1]) col) = Inr ?d"
    by (simp add: sq_dist_def broadcast_op_def)
  have w: "wf_tensor ?d" using lX lY by (simp add: wf_tensor_def tensor_map_def)
  have s: "shape ?d = batch @ [L]" by simp
  have "data ?d ! (p * L + i) = (ax ! i - col ! p) ^ 2"
    using k lX lY Xn Yn by (simp add: tensor_map_def)
  with d w s show ?thesis by blast
qed

subsection \<open>The factor of one axis\<close>

lemma factor_shape_nth:
  "t < a + 1 + j \<Longrightarrow> (replicate a 1 @ [L] @ replicate j 1) ! t = (if t = a then L else (1::nat))"
proof (induction a arbitrary: t)
  case 0
  then show ?case by (cases t) simp_all
next
  case (Suc a)
  then show ?case by (cases t) simp_all
qed

lemma factor_compat:
  assumes "length (s :: nat list) = a + 1 + j" "s ! a = L"
  shows "list_all2 (\<lambda>m n. m = n \<or> m = 1) (replicate a 1 @ [L] @ replicate j 1) s"
proof (rule list_all2_all_nthI)
  show "length (replicate a 1 @ [L] @ replicate j 1) = length s" using assms by simp
next
  fix t assume "t < length (replicate a 1 @ [L] @ replicate j 1)"
  then have t: "t < a + 1 + j" by simp
  show "(replicate a 1 @ [L] @ replicate j 1) ! t = s ! t \<or>
      (replicate a 1 @ [L] @ replicate j 1) ! t = 1"
    using factor_shape_nth [OF t, of L] assms(2) by auto
qed

lemma factor_index:
  assumes lc: "length c = a + 1 + j" and ca: "c ! a < L"
  shows "flat_index (replicate a 1 @ [L] @ replicate j 1)
           (clip_index (replicate a 1 @ [L] @ replicate j 1) c) = c ! a"
proof -
  let ?r = "replicate a 1 @ [L] @ replicate j (1::nat)"
  let ?c = "clip_index ?r c"
  have lr: "length ?r = a + 1 + j" by simp
  have l: "length c = length ?r" using lc by simp
  have lc': "length ?c = length ?r" by (rule length_clip_index [OF l])
  have a: "a < length ?r" by simp
  have ones: "\<forall>t<length ?r. t \<noteq> a \<longrightarrow> ?r ! t = 1"
  proof (intro allI impI)
    fix t assume "t < length ?r" "t \<noteq> a"
    then show "?r ! t = 1" using factor_shape_nth [of t a j L] by simp
  qed
  have zeros: "\<forall>t<length ?r. t \<noteq> a \<longrightarrow> ?c ! t = 0"
  proof (intro allI impI)
    fix t assume t: "t < length ?r" "t \<noteq> a"
    with ones have "?r ! t = 1" by blast
    with clip_index_nth [OF l t(1)] show "?c ! t = 0" by simp
  qed
  have "flat_index ?r ?c = ?c ! a"
    by (rule flat_index_single [OF lc' a zeros ones])
  also have "?c ! a = (if ?r ! a = 1 then 0 else c ! a)"
    by (rule clip_index_nth [OF l a])
  also have "?r ! a = L" using factor_shape_nth [of a a j L] by simp
  also have "(if L = 1 then 0 else c ! a) = c ! a" using ca by auto
  finally show ?thesis .
qed

lemma factor_reads_one:
  assumes ls: "length s = a + 1 + j" and sa: "s ! a = L" and v: "valid_cell s c"
    and p: "p < prod_list batch" and len: "length xs = prod_list batch * L"
    and one: "xs ! (p * L + c ! a) = 1"
  shows "reads_one batch s p c (Tensor (batch @ replicate a 1 @ [L] @ replicate j 1) xs)"
proof -
  let ?r = "replicate a 1 @ [L] @ replicate j (1::nat)"
  have pr: "prod_list ?r = L" by (simp add: prod_list_replicate_one)
  from ls have a: "a < length s" by simp
  from valid_cell_nth [OF v a] sa have ca: "c ! a < L" by simp
  from valid_cell_length [OF v] ls have lc: "length c = a + 1 + j" by simp
  have fi: "flat_index ?r (clip_index ?r c) = c ! a" by (rule factor_index [OF lc ca])
  have "chunks L (prod_list batch) xs ! p ! (c ! a) = xs ! (p * L + c ! a)"
    by (rule chunks_nth_nth [OF p ca len])
  with one have v1: "chunks (prod_list ?r) (prod_list batch) xs ! p ! flat_index ?r (clip_index ?r c) = 1"
    unfolding pr fi by simp
  have w: "wf_tensor (Tensor (batch @ ?r) xs)"
    using len pr by (simp add: wf_tensor_def)
  have cp: "list_all2 (\<lambda>m n. m = n \<or> m = 1) ?r s" by (rule factor_compat [OF ls sa])
  have "\<exists>r. shape (Tensor (batch @ ?r) xs) = batch @ r \<and> list_all2 (\<lambda>m n. m = n \<or> m = 1) r s \<and>
      chunks (prod_list r) (prod_list batch) (data (Tensor (batch @ ?r) xs)) ! p !
        flat_index r (clip_index r c) = 1"
    using cp v1 by (intro exI [of _ ?r]) simp
  with w show ?thesis unfolding reads_one_def by simp
qed

subsection \<open>The cell at the mean\<close>

lemma split_last_columns:
  assumes "shape means = batch @ [n]" "0 < n"
  shows "split_last means =
     Inr (map (\<lambda>j. Tensor (batch @ [1])
                 (map (\<lambda>q. data means ! (q * n + j)) [0..<prod_list batch])) [0..<n])"
  using assms by (simp add: split_last_def)

lemma make_gauss_peak:
  assumes wf: "wf_tensor means" and sh: "shape means = batch @ [length sz]" and ne: "sz \<noteq> []"
    and pos: "\<forall>s\<in>set sz. 1 \<le> s" and sg: "sigma \<noteq> 0"
    and p: "p < prod_list batch" and v: "valid_cell (map nat sz) c"
    and ctr: "\<forall>j<length sz. data means ! (p * length sz + j) =
                axis_value (nat (sz ! (length sz - 1 - j))) (c ! (length sz - 1 - j))"
  shows "\<exists>u. make_gauss means sz sigma False = Inr u \<and> reads_one batch (map nat sz) p c u"
proof -
  let ?n = "length sz"
  let ?B = "prod_list batch"
  let ?s = "map nat sz"
  let ?Ls = "map nat (rev sz)"
  let ?dr = "map (\<lambda>j. - 1 - int j) [0..<?n]"
  let ?ax = "\<lambda>i. Tensor [?Ls ! i] (map (axis_value (?Ls ! i)) [0..<?Ls ! i])"
  let ?col = "\<lambda>j. Tensor (batch @ [1]) (map (\<lambda>q. data means ! (q * ?n + j)) [0..<?B])"
  from ne have n: "0 < ?n" by simp
  have Ls: "?Ls ! i = ?s ! (?n - 1 - i)" and Lz: "?Ls ! i = nat (sz ! (?n - 1 - i))"
    and Lp: "0 < ?Ls ! i" and Li: "int (?Ls ! i) = rev sz ! i" and ci: "c ! (?n - 1 - i) < ?Ls ! i"
    if i: "i < ?n" for i
  proof -
    from i have r: "rev sz ! i = sz ! (?n - 1 - i)" by (simp add: rev_nth)
    from i show a: "?Ls ! i = ?s ! (?n - 1 - i)" by (simp add: r)
    from i show "?Ls ! i = nat (sz ! (?n - 1 - i))" by (simp add: r)
    from i have "rev sz ! i \<in> set sz" by (metis length_rev nth_mem set_rev)
    with pos have "1 \<le> rev sz ! i" by blast
    with i show "0 < ?Ls ! i" "int (?Ls ! i) = rev sz ! i" by simp_all
    from i have "?n - 1 - i < length ?s" by simp
    from valid_cell_nth [OF v this] show "c ! (?n - 1 - i) < ?Ls ! i" unfolding a .
  qed
  have "\<forall>i<length (rev sz). \<exists>y. normalized_linspace (rev sz ! i) = Inr y \<and> y = ?ax i"
  proof (intro allI impI)
    fix i assume "i < length (rev sz)"
    then have i: "i < ?n" by simp
    from normalized_linspace_nat [OF Lp [OF i]] Li [OF i]
    show "\<exists>y. normalized_linspace (rev sz ! i) = Inr y \<and> y = ?ax i" by simp
  qed
  from sequence_err_nth [OF this] obtain coords where
    c: "sequence_err (map normalized_linspace (rev sz)) = Inr coords"
    and lc: "length coords = ?n" and pc: "\<forall>i<?n. coords ! i = ?ax i"
    by auto
  have m: "split_last means = Inr (map ?col [0..<?n])"
    by (rule split_last_columns [OF sh n])
  let ?ml = "map ?col [0..<?n]"
  have "\<forall>i<length (zip coords ?ml). \<exists>y. (\<lambda>(x, mean). sq_dist x mean) (zip coords ?ml ! i) = Inr y \<and>
      (wf_tensor y \<and> shape y = batch @ [?Ls ! i] \<and>
       data y ! (p * ?Ls ! i + c ! (?n - 1 - i)) = 0)"
  proof (intro allI impI)
    fix i assume "i < length (zip coords ?ml)"
    then have i: "i < ?n" using lc by simp
    let ?L = "?Ls ! i"
    let ?i' = "c ! (?n - 1 - i)"
    have z: "zip coords ?ml ! i = (?ax i, ?col i)" using i lc pc by simp
    from sq_dist_cell [of "map (axis_value ?L) [0..<?L]" ?L
        "map (\<lambda>q. data means ! (q * ?n + i)) [0..<?B]" batch p ?i'] p ci [OF i]
    obtain d where d: "sq_dist (?ax i) (?col i) = Inr d" and wd: "wf_tensor d"
      and sd: "shape d = batch @ [?L]"
      and vd: "data d ! (p * ?L + ?i') =
        (map (axis_value ?L) [0..<?L] ! ?i' -
         map (\<lambda>q. data means ! (q * ?n + i)) [0..<?B] ! p) ^ 2"
      by auto
    from ctr i have "data means ! (p * ?n + i) = axis_value ?L ?i'"
      by (simp add: Lz [OF i])
    with vd p ci [OF i] have "data d ! (p * ?L + ?i') = 0" by simp
    with d wd sd show "\<exists>y. (\<lambda>(x, mean). sq_dist x mean) (zip coords ?ml ! i) = Inr y \<and>
      (wf_tensor y \<and> shape y = batch @ [?Ls ! i] \<and>
       data y ! (p * ?Ls ! i + c ! (?n - 1 - i)) = 0)"
      unfolding z by simp
  qed
  from sequence_err_nth [OF this] obtain dists where
    d: "sequence_err (map (\<lambda>(x, mean). sq_dist x mean) (zip coords ?ml)) = Inr dists"
    and ld: "length dists = ?n"
    and pd: "\<forall>i<?n. wf_tensor (dists ! i) \<and> shape (dists ! i) = batch @ [?Ls ! i] \<and>
        data (dists ! i) ! (p * ?Ls ! i + c ! (?n - 1 - i)) = 0"
    using lc by auto
  from pos have "\<forall>s\<in>set sz. s \<noteq> 0" by auto
  from gauss_ks_total [OF sg this] obtain ks where
    k: "gauss_ks sz sigma = Inr ks" and lk: "length ks = ?n"
    by simp
  let ?exps = "map (\<lambda>(k, dist). tensor_map exp (tensor_map (\<lambda>v. v * k) dist)) (zip ks dists)"
  have le: "length (zip ?dr ?exps) = ?n" using lk ld by simp
  have "\<forall>i<length (zip ?dr ?exps).
      \<exists>y. (\<lambda>(d, dist). fold_err unsqueeze (filter (\<lambda>d'. d' \<noteq> d) ?dr) dist) (zip ?dr ?exps ! i) = Inr y \<and>
        reads_one batch ?s p c y"
  proof (intro allI impI)
    fix i assume "i < length (zip ?dr ?exps)"
    then have i: "i < ?n" using le by simp
    let ?L = "?Ls ! i"
    let ?i' = "c ! (?n - 1 - i)"
    let ?e = "tensor_map exp (tensor_map (\<lambda>v. v * ks ! i) (dists ! i))"
    from i pd have wd: "wf_tensor (dists ! i)" and sd: "shape (dists ! i) = batch @ [?L]"
      and vd: "data (dists ! i) ! (p * ?L + ?i') = 0" by simp_all
    from wd sd have len: "length (data (dists ! i)) = ?B * ?L" by (simp add: wf_tensor_def)
    have se: "shape ?e = batch @ [?L]" using sd by simp
    have lne: "length (data ?e) = ?B * ?L" using len by (simp add: tensor_map_def)
    have idx: "p * ?L + ?i' < ?B * ?L" by (rule block_index_less [OF p ci [OF i]])
    have ve: "data ?e ! (p * ?L + ?i') = 1"
      using idx len vd by (simp add: tensor_map_def)
    have z: "zip ?dr ?exps ! i = (- 1 - int i, ?e)" using i lk ld by simp
    have "?e = Tensor (batch @ [?L]) (data ?e)"
      using se by (metis tensor.collapse)
    then have f: "fold_err unsqueeze (filter (\<lambda>d'. d' \<noteq> - 1 - int i) ?dr) ?e =
        Inr (Tensor (batch @ replicate (?n - 1 - i) 1 @ [?L] @ replicate i 1) (data ?e))"
      using unsqueeze_factor [OF i, of batch ?L "data ?e"] by simp
    have ls: "length ?s = (?n - 1 - i) + 1 + i" using i by simp
    have "reads_one batch ?s p c
        (Tensor (batch @ replicate (?n - 1 - i) 1 @ [?L] @ replicate i 1) (data ?e))"
      by (rule factor_reads_one [OF ls Ls [OF i, symmetric] v p lne ve])
    with f show "\<exists>y. (\<lambda>(d, dist). fold_err unsqueeze (filter (\<lambda>d'. d' \<noteq> d) ?dr) dist)
          (zip ?dr ?exps ! i) = Inr y \<and> reads_one batch ?s p c y"
      unfolding z by simp
  qed
  from sequence_err_nth [OF this] obtain fs where
    f: "sequence_err (map (\<lambda>(d, dist). fold_err unsqueeze (filter (\<lambda>d'. d' \<noteq> d) ?dr) dist)
          (zip ?dr ?exps)) = Inr fs"
    and lf: "length fs = ?n"
    and pf: "\<forall>j<?n. reads_one batch ?s p c (fs ! j)"
    using le lk ld by auto
  from lf n have fne: "fs \<noteq> []" by auto
  from pf lf have "\<forall>u\<in>set fs. reads_one batch ?s p c u" by (auto simp: in_set_conv_nth)
  from reads_one_reduce_mul [OF p v fne this] obtain u where
    u: "reduce_mul fs = Inr u" and ru: "reads_one batch ?s p c u" by blast
  have "make_gauss means sz sigma False = Inr u"
    unfolding make_gauss_def Let_def c sum.case m d k f u by simp
  with ru show ?thesis by blast
qed

subsection \<open>The Gaussian on valid input\<close>



lemma sigma_in_range_nonzero: "sigma_in_range sz sigma \<Longrightarrow> sz \<noteq> [] \<Longrightarrow> sigma \<noteq> 0"
proof
  assume r: "sigma_in_range sz sigma" and ne: "sz \<noteq> []" and z: "sigma = 0"
  from ne have "hd sz \<in> set sz" by simp
  with r have "1 / 10 ^ 18 \<le> \<bar>2 * sigma / real_of_int (hd sz)\<bar>"
    unfolding sigma_in_range_def by blast
  with z show False by simp
qed

lemma prod_list_nat_pos: "\<forall>s\<in>set sz. 1 \<le> s \<Longrightarrow> 0 < prod_list (map nat sz)"
  by (induction sz) auto


text \<open>
  C3, amended: for means of shape \<open>batch @ [n]\<close>, a grid of \<open>n \<ge> 1\<close> sizes of at least 1 and
  a sigma within range, \<^verbatim>\<open>make_gauss\<close> with \<^verbatim>\<open>normalize=False\<close> returns an array of the
  shape \<open>batch @ size\<close> whose values all lie between 0 and 1, so that its maximum is at
  most 1. For a sample whose mean is the centre of a cell (on every axis the coordinate of
  the mean, x first, is the entry of the normalized axis at the index of the cell), the
  value at that cell is exactly 1 and the maximum of the sample is exactly 1.
\<close>

theorem make_gauss_unit_values:
  assumes wf: "wf_tensor means" and sh: "shape means = batch @ [length sz]" and ne: "sz \<noteq> []"
    and pos: "\<forall>s\<in>set sz. 1 \<le> s" and sg: "sigma_in_range sz sigma"
  shows "\<exists>g. make_gauss means sz sigma False = Inr g \<and> wf_tensor g \<and>
           shape g = batch @ map nat sz \<and> (\<forall>x\<in>set (data g). 0 \<le> x \<and> x \<le> 1) \<and>
           (\<forall>b c. b < prod_list batch \<and> valid_cell (map nat sz) c \<and>
                  (\<forall>j<length sz. chunks (length sz) (prod_list batch) (data means) ! b ! j =
                      axis_value (nat (sz ! (length sz - 1 - j))) (c ! (length sz - 1 - j))) \<longrightarrow>
              chunks (prod_list (map nat sz)) (prod_list batch) (data g) ! b !
                flat_index (map nat sz) c = 1 \<and>
              Max (set (chunks (prod_list (map nat sz)) (prod_list batch) (data g) ! b)) = 1)"
proof -
  let ?n = "length sz"
  let ?s = "map nat sz"
  let ?Q = "prod_list ?s"
  let ?B = "prod_list batch"
  note s0 = sigma_in_range_nonzero [OF sg ne]
  from make_gauss_shape [OF wf sh ne pos s0] obtain g where
    g: "make_gauss means sz sigma False = Inr g" and wg: "wf_tensor g"
    and sg': "shape g = batch @ ?s" by blast
  have uv: "\<forall>x\<in>set (data g). 0 \<le> x \<and> x \<le> 1"
    using make_gauss_values [OF g] by (auto intro: less_imp_le)
  have lg: "length (data g) = ?B * ?Q" using wg sg' by (simp add: wf_tensor_def)
  have lm: "length (data means) = ?B * ?n" using wf sh by (simp add: wf_tensor_def)
  from ne have n: "0 < ?n" by simp
  let ?gs = "chunks ?Q ?B (data g)"
  have peak: "?gs ! b ! flat_index ?s c = 1 \<and> Max (set (?gs ! b)) = 1"
    if b: "b < ?B" and v: "valid_cell ?s c"
      and ctr: "\<forall>j<?n. chunks ?n ?B (data means) ! b ! j =
                  axis_value (nat (sz ! (?n - 1 - j))) (c ! (?n - 1 - j))"
    for b c
  proof -
    have "\<forall>j<?n. data means ! (b * ?n + j) =
        axis_value (nat (sz ! (?n - 1 - j))) (c ! (?n - 1 - j))"
    proof (intro allI impI)
      fix j assume j: "j < ?n"
      from chunks_nth_nth [OF b j lm] ctr j
      show "data means ! (b * ?n + j) = axis_value (nat (sz ! (?n - 1 - j))) (c ! (?n - 1 - j))"
        by simp
    qed
    from make_gauss_peak [OF wf sh ne pos s0 b v this] g
    have "reads_one batch ?s b c g" by simp
    then obtain r where r: "shape g = batch @ r"
      and one: "chunks (prod_list r) ?B (data g) ! b ! flat_index r (clip_index r c) = 1"
      by (auto simp: reads_one_def)
    from r sg' have "r = ?s" by simp
    with one have cell: "?gs ! b ! flat_index ?s c = 1"
      by (simp add: clip_index_id [OF v])
    from b have mem: "?gs ! b \<in> set ?gs" by simp
    have lb: "length (?gs ! b) = ?Q" by (rule chunks_lengths [OF lg mem])
    have q: "flat_index ?s c < ?Q" by (rule flat_index_less [OF v])
    then have "?gs ! b ! flat_index ?s c \<in> set (?gs ! b)" using lb by simp
    then have in1: "1 \<in> set (?gs ! b)" unfolding cell .
    have le1: "y \<le> 1" if "y \<in> set (?gs ! b)" for y
      using that set_chunks_subset [OF mem] uv by blast
    have "Max (set (?gs ! b)) = 1"
      by (rule Max_eqI) (use in1 le1 in simp_all)
    with cell show ?thesis by simp
  qed
  from g wg sg' uv peak show ?thesis by blast
qed

theorem make_gauss_unit_values_witness:
  "wf_tensor (Tensor [1] [0]) \<and> shape (Tensor [1] [0]) = [] @ [length [3::int]] \<and>
   (1 / 10 ^ 18 :: real) \<le> \<bar>2 * 1 / real_of_int 3\<bar> \<and> \<bar>2 * 1 / real_of_int 3\<bar> \<le> (10 ^ 18 :: real) \<and>
   valid_cell (map nat [3]) [1] \<and> axis_value 3 1 = 0 \<and>
   (\<exists>g. make_gauss (Tensor [1] [0]) [3] 1 False = Inr g \<and> shape g = [3] \<and>
        chunks (prod_list (map nat [3])) (prod_list []) (data g) ! 0 ! flat_index (map nat [3]) [1] = 1 \<and>
        Max (set (chunks (prod_list (map nat [3])) (prod_list []) (data g) ! 0)) = 1)"
proof -
  have w: "wf_tensor (Tensor [1] [0])" by (simp add: wf_tensor_def)
  have s: "shape (Tensor [1] [0]) = [] @ [length [3::int]]" by simp
  have r: "sigma_in_range [3] 1" by (simp add: sigma_in_range_def)
  have a: "axis_value 3 1 = 0" using axis_value_formula [of 1 3] by simp
  have v: "valid_cell (map nat [3]) [1]" by (simp add: valid_cell_def)
  have c: "\<forall>j<length [3::int]. chunks (length [3::int]) (prod_list []) (data (Tensor [1] [0])) ! 0 ! j =
      axis_value (nat ([3] ! (length [3::int] - 1 - j))) ([1] ! (length [3::int] - 1 - j))"
    using a by (simp add: chunks_def)
  from make_gauss_unit_values [OF w s _ _ r] obtain g where
    g: "make_gauss (Tensor [1] [0]) [3] 1 False = Inr g" and sg: "shape g = [] @ map nat [3]"
    and pk: "\<forall>b c. b < prod_list [] \<and> valid_cell (map nat [3]) c \<and>
        (\<forall>j<length [3::int]. chunks (length [3::int]) (prod_list []) (data (Tensor [1] [0])) ! b ! j =
            axis_value (nat ([3] ! (length [3::int] - 1 - j))) (c ! (length [3::int] - 1 - j))) \<longrightarrow>
        chunks (prod_list (map nat [3])) (prod_list []) (data g) ! b ! flat_index (map nat [3]) c = 1 \<and>
        Max (set (chunks (prod_list (map nat [3])) (prod_list []) (data g) ! b)) = 1"
    by auto
  have b: "0 < prod_list ([] :: nat list)" by simp
  from pk [THEN spec, of 0, THEN spec, of "[1]"] b v c have
    "chunks (prod_list (map nat [3])) (prod_list []) (data g) ! 0 ! flat_index (map nat [3]) [1] = 1 \<and>
     Max (set (chunks (prod_list (map nat [3])) (prod_list []) (data g) ! 0)) = 1"
    by blast
  with g sg w s a v show ?thesis by auto
qed




end
